theory Spec2Isabelle
  imports Main
begin

section \<open>semigrate: versioned migrations on a PostgreSQL session\<close>

text \<open>
  A shallow embedding of \<^verbatim>\<open>migrate.js\<close>. The program is a chain of Q promises over one
  pg client. The embedding makes the chain explicit: every function that returns a
  promise becomes a function from the database state to the events it causes, the way its
  promise ends, and the database state afterwards.

  The libraries the program calls (pg, fs, path, semver, Q, lodash) are not part of the
  repository. What the database, the file system and the procedural migration scripts
  answer is a parameter (the record \<open>world\<close>); the few library functions whose
  behaviour the program relies on are written out below, each with the library call it
  stands for.
\<close>

subsection \<open>Semantic versions\<close>

text \<open>
  A version of the catalog is what \<^verbatim>\<open>semver.valid\<close> returns for the part of an entry name
  before its first hyphen. That part holds no hyphen, so it carries no prerelease tag,
  and \<^verbatim>\<open>semver.valid\<close> drops build metadata: a catalog version is a plain
  \<^verbatim>\<open>major.minor.patch\<close>. The bookkeeping table holds what the program inserted, so the same
  holds for its rows.
\<close>

datatype semver = SemVer (major: nat) (minor: nat) (patch: nat)

text \<open>\<^verbatim>\<open>compareIdentifiers\<close> and \<^verbatim>\<open>semver.compare\<close>: -1, 0 or 1, major first.\<close>

definition compareIdentifiers :: "nat \<Rightarrow> nat \<Rightarrow> int" where
  "compareIdentifiers a b = (if a < b then - 1 else if b < a then 1 else 0)"

definition semver_compare :: "semver \<Rightarrow> semver \<Rightarrow> int" where
  "semver_compare a b =
     (if compareIdentifiers (major a) (major b) \<noteq> 0 then compareIdentifiers (major a) (major b)
      else if compareIdentifiers (minor a) (minor b) \<noteq> 0 then compareIdentifiers (minor a) (minor b)
      else compareIdentifiers (patch a) (patch b))"

definition semver_gt :: "semver \<Rightarrow> semver \<Rightarrow> bool" where
  "semver_gt a b = (0 < semver_compare a b)"

definition semver_eq :: "semver \<Rightarrow> semver \<Rightarrow> bool" where
  "semver_eq a b = (semver_compare a b = 0)"

text \<open>
  \<^verbatim>\<open>semver.satisfies(v, '^' + t)\<close>. The caret range of \<open>t\<close> is
  \<^verbatim>\<open>>=t <(M+1).0.0\<close> when the major \<open>M\<close> of \<open>t\<close> is not zero,
  \<^verbatim>\<open>>=t <0.(m+1).0\<close> when the major is zero and the minor \<open>m\<close> is not, and
  \<^verbatim>\<open>>=t <0.0.(p+1)\<close> when both are zero.
\<close>

definition caret_bound :: "semver \<Rightarrow> semver" where
  "caret_bound t =
     (if major t \<noteq> 0 then SemVer (major t + 1) 0 0
      else if minor t \<noteq> 0 then SemVer 0 (minor t + 1) 0
      else SemVer 0 0 (patch t + 1))"

definition satisfies_caret :: "semver \<Rightarrow> semver \<Rightarrow> bool" where
  "satisfies_caret v t = (0 \<le> semver_compare v t \<and> semver_compare v (caret_bound t) < 0)"

text \<open>
  \<^verbatim>\<open>semver.maxSatisfying(versions, '*')\<close>: the greatest of the versions, \<^verbatim>\<open>null\<close> when
  there is none.
\<close>

fun maxSatisfying :: "semver list \<Rightarrow> semver option" where
  "maxSatisfying [] = None"
| "maxSatisfying (v # vs) =
     (case maxSatisfying vs of
        None \<Rightarrow> Some v
      | Some m \<Rightarrow> if semver_gt v m then Some v else Some m)"

subsection \<open>Errors and the ways a call can end\<close>

datatype error =
    TypeError            \<comment> \<open>thrown by JavaScript or by semver on a value that is no version\<close>
  | OutOfDate            \<comment> \<open>\<^verbatim>\<open>Error('Database is out-of-date.')\<close>\<close>
  | Incompatible         \<comment> \<open>\<^verbatim>\<open>Error('Database version is incompatible with the current code.')\<close>\<close>
  | PgError string       \<comment> \<open>an error passed by pg to a callback\<close>
  | FsError string       \<comment> \<open>an exception of fs\<close>
  | ScriptError string   \<comment> \<open>an exception or rejection of a procedural migration\<close>

text \<open>
  The way a call ends. \<open>Fulfilled\<close> and \<open>Rejected\<close> are the two ways the promise it
  returns settles. \<open>Thrown\<close>: the call raised an exception instead of returning.
  \<open>Uncaught\<close>: an exception left a \<^verbatim>\<open>process.nextTick\<close> callback, so nothing settles the
  promise any more.
\<close>

datatype 'a result = Fulfilled 'a | Rejected error | Thrown error | Uncaught error

subsection \<open>The verdict of \<^verbatim>\<open>check\<close>\<close>

datatype verdict = UpToDate | NewerCompatible

text \<open>
  The callback of \<^verbatim>\<open>check\<close> (lines 324 to 338), on the catalog's greatest version
  \<open>lastMigration\<close> and the detected version, each \<open>None\<close> for \<^verbatim>\<open>null\<close>.
  \<^verbatim>\<open>semver.gt(null, version)\<close> throws a TypeError.
\<close>

definition check_verdict :: "semver option \<Rightarrow> semver option \<Rightarrow> error + verdict" where
  "check_verdict lastMigration detected =
     (case detected of
        None \<Rightarrow> Inl OutOfDate
      | Some v \<Rightarrow>
          (case lastMigration of
             None \<Rightarrow> Inl TypeError
           | Some t \<Rightarrow>
               if semver_gt t v then Inl OutOfDate
               else if semver_eq t v then Inr UpToDate
               else if satisfies_caret v t then Inr NewerCompatible
               else Inl Incompatible))"

subsection \<open>Paths, the catalog and the world outside\<close>

text \<open>
  A path is the list of its components: \<^verbatim>\<open>path.join(dir, name)\<close> appends a component and
  \<^verbatim>\<open>path.basename\<close> takes the last one. \<^verbatim>\<open>path.extname\<close> is the part of the basename
  from its last dot on, and empty when there is no dot, when the only dot is the first
  character, and for \<^verbatim>\<open>..\<close>.
\<close>

type_synonym filepath = "string list"

definition basename :: "filepath \<Rightarrow> string" where
  "basename p = (if p = [] then [] else last p)"

definition extname :: "filepath \<Rightarrow> string" where
  "extname p =
     (let b = basename p;
          ext = rev (takeWhile (\<lambda>c. c \<noteq> CHR ''.'') (rev b))
      in if CHR ''.'' \<in> set b \<and> b \<noteq> ''..'' \<and> length b \<noteq> length ext + 1
         then CHR ''.'' # ext else [])"

definition validMigrationType :: "filepath \<Rightarrow> bool" where
  "validMigrationType file = (extname file = ''.sql'' \<or> extname file = ''.js'')"

record migration =
  version :: semver
  title :: string
  multiple :: bool
  path :: filepath
  files :: "filepath list"

text \<open>How a procedural migration, \<^verbatim>\<open>require(filename)(conn)\<close>, ends.\<close>

datatype script_end = ScriptFulfilled | ScriptRejected error | ScriptThrew error

text \<open>The statements the program sends; \<open>SCRIPT\<close> carries the content of a file.\<close>

datatype stmt =
    BEGIN | COMMIT | ROLLBACK
  | CREATE_SCHEMA | CREATE_TABLE
  | SELECT_VERSION
  | INSERT_VERSION semver
  | DELETE_MIGRATIONS
  | SCRIPT string

text \<open>
  The world outside the program, over any type \<open>'db\<close> of database states:
  \<^item> \<open>pg_connect\<close>: the error \<^verbatim>\<open>pg.connect\<close> passes to its callback, if any;
  \<^item> \<open>client_query\<close>: what the server answers to a statement (an error, or the
    \<^verbatim>\<open>version\<close> column of the rows), and the state it leaves;
  \<^item> \<open>readdirSync\<close>, \<open>isDirectory\<close> (of \<^verbatim>\<open>fs.statSync\<close>), \<open>readFileSync\<close>: the file
    system, \<open>Inl\<close> for an exception;
  \<^item> \<open>require_call\<close>: a procedural migration run on the session;
  \<^item> \<open>semver_valid\<close>: \<^verbatim>\<open>semver.valid\<close>.
\<close>

record 'db world =
  pg_connect :: "string \<Rightarrow> error option"
  client_query :: "stmt \<Rightarrow> 'db \<Rightarrow> (error + semver list) \<times> 'db"
  readdirSync :: "filepath \<Rightarrow> error + string list"
  isDirectory :: "filepath \<Rightarrow> error + bool"
  readFileSync :: "filepath \<Rightarrow> error + string"
  require_call :: "filepath \<Rightarrow> 'db \<Rightarrow> script_end \<times> 'db"
  semver_valid :: "string \<Rightarrow> semver option"

text \<open>
  The match of \<^verbatim>\<open>/^([^-]*)-(.*)$/\<close> on a name: the first group ends at the first hyphen,
  and the dot of the second group matches no line terminator (line feed and carriage
  return here; the two Unicode separators are no characters of this model's strings).
\<close>

definition matchSpec :: "string \<Rightarrow> (string \<times> string) option" where
  "matchSpec name =
     (let rest = dropWhile (\<lambda>c. c \<noteq> CHR ''-'') name
      in if rest = [] then None
         else if CHR 0x0A \<in> set (tl rest) \<or> CHR 0x0D \<in> set (tl rest) then None
         else Some (takeWhile (\<lambda>c. c \<noteq> CHR ''-'') name, tl rest))"

definition parseMigrationSpec :: "'db world \<Rightarrow> filepath \<Rightarrow> error + migration option" where
  "parseMigrationSpec w spec =
     (case matchSpec (basename spec) of
        None \<Rightarrow> Inr None
      | Some (v, t) \<Rightarrow>
          (case semver_valid w v of
             None \<Rightarrow> Inr None
           | Some ver \<Rightarrow>
               (case isDirectory w spec of
                  Inl e \<Rightarrow> Inl e
                | Inr dir \<Rightarrow>
                    if dir then
                      (case readdirSync w spec of
                         Inl e \<Rightarrow> Inl e
                       | Inr names \<Rightarrow>
                           Inr (Some \<lparr>version = ver, title = t, multiple = True, path = spec,
                             files = filter validMigrationType (map (\<lambda>file. spec @ [file]) names)\<rparr>))
                    else if \<not> validMigrationType spec then Inr None
                    else Inr (Some \<lparr>version = ver, title = t, multiple = False, path = spec,
                           files = [spec]\<rparr>))))"

text \<open>\<^verbatim>\<open>.map(parseMigrationSpec)\<close>, which stops at the first exception.\<close>

fun mapSpecs :: "'db world \<Rightarrow> filepath list \<Rightarrow> error + migration option list" where
  "mapSpecs w [] = Inr []"
| "mapSpecs w (spec # specs) =
     (case parseMigrationSpec w spec of
        Inl e \<Rightarrow> Inl e
      | Inr m \<Rightarrow> (case mapSpecs w specs of Inl e \<Rightarrow> Inl e | Inr ms \<Rightarrow> Inr (m # ms)))"

text \<open>\<^verbatim>\<open>.compact()\<close> drops the \<^verbatim>\<open>undefined\<close> entries.\<close>

fun compact :: "'a option list \<Rightarrow> 'a list" where
  "compact [] = []"
| "compact (None # xs) = compact xs"
| "compact (Some x # xs) = x # compact xs"

text \<open>
  \<^verbatim>\<open>.sort(compare)\<close>, as an insertion sort that keeps equal elements in their order.
  (JavaScript leaves the order of equal elements to the engine.)
\<close>

fun insert_by :: "('a \<Rightarrow> 'a \<Rightarrow> int) \<Rightarrow> 'a \<Rightarrow> 'a list \<Rightarrow> 'a list" where
  "insert_by cmp x [] = [x]"
| "insert_by cmp x (y # ys) = (if cmp x y \<le> 0 then x # y # ys else y # insert_by cmp x ys)"

definition sort_by :: "('a \<Rightarrow> 'a \<Rightarrow> int) \<Rightarrow> 'a list \<Rightarrow> 'a list" where
  "sort_by cmp xs = foldr (insert_by cmp) xs []"

definition list :: "'db world \<Rightarrow> filepath \<Rightarrow> error + migration list" where
  "list w directory =
     (case readdirSync w (if directory = [] then [''.''] else directory) of
        Inl e \<Rightarrow> Inl e
      | Inr names \<Rightarrow>
          (case mapSpecs w (map (\<lambda>name. directory @ [name]) names) of
             Inl e \<Rightarrow> Inl e
           | Inr specs \<Rightarrow>
               Inr (sort_by (\<lambda>m1 m2. semver_compare (version m1) (version m2)) (compact specs))))"

subsection \<open>Events of a run\<close>

text \<open>What the program writes to the console.\<close>

datatype message =
    Connecting string                    \<comment> \<open>\<^verbatim>\<open>Connecting to database ...\<close>\<close>
  | Initializing                         \<comment> \<open>\<^verbatim>\<open>Initializing migration schema...\<close>\<close>
  | StatusDone                           \<comment> \<open>\<^verbatim>\<open>report.status('done')\<close>\<close>
  | CurrentVersion semver                \<comment> \<open>\<^verbatim>\<open>Current version...\<close> and the version\<close>
  | MigratingDatabase                    \<comment> \<open>\<^verbatim>\<open>Migrating database...\<close>\<close>
  | MigrationHeader semver string bool   \<comment> \<open>\<^verbatim>\<open>report.migration(version, title, line)\<close>\<close>
  | BlankLine                            \<comment> \<open>\<^verbatim>\<open>console.log('')\<close>\<close>
  | StepHeader string                    \<comment> \<open>\<^verbatim>\<open>report.step(basename)\<close>\<close>
  | DoneMark                             \<comment> \<open>\<^verbatim>\<open>report.done()\<close>\<close>
  | Loading filepath                     \<comment> \<open>\<^verbatim>\<open>report.load(filename)\<close>\<close>
  | Resetting                            \<comment> \<open>\<^verbatim>\<open>Reseting database...\<close>\<close>
  | Reverting                            \<comment> \<open>\<^verbatim>\<open>Reverting...\<close>\<close>
  | UpToDateMessage                      \<comment> \<open>\<^verbatim>\<open>Database is up-to-date.\<close>\<close>
  | NewerWarning                         \<comment> \<open>\<^verbatim>\<open>WARNING: Database is newer than the code, ...\<close>\<close>

text \<open>
  \<^item> \<open>Issue s\<close>: \<^verbatim>\<open>client.query\<close> is called with the statement \<open>s\<close>;
  \<^item> \<open>Completed s err\<close>: the callback of that call runs, with the error if any;
  \<^item> \<open>Invoke file\<close>: a procedural migration is required and called with the session;
  \<^item> \<open>Release\<close>: the function \<^verbatim>\<open>done\<close> kept in the \<^verbatim>\<open>Connection\<close> is called, which
    gives the client back to the pool;
  \<^item> \<open>Callback err\<close>: the completion callback of \<^verbatim>\<open>semigrate\<close> is called with \<open>err\<close>
    (\<open>None\<close> for \<^verbatim>\<open>null\<close>);
  \<^item> \<open>Say m\<close>: console output.
\<close>

datatype event =
    Issue stmt
  | Completed stmt "error option"
  | Invoke filepath
  | Release
  | Callback "error option"
  | Say message

text \<open>A run: the events in their order, how it ends, and the state of the database.\<close>

type_synonym ('a, 'db) run = "event list \<times> 'a result \<times> 'db"

text \<open>
  \<^verbatim>\<open>promise.then(f)\<close>: \<open>f\<close> runs when the promise is fulfilled; an exception of \<open>f\<close>
  rejects the promise that \<^verbatim>\<open>then\<close> returns.
\<close>

definition then_run :: "('a, 'db) run \<Rightarrow> ('a \<Rightarrow> 'db \<Rightarrow> ('b, 'db) run) \<Rightarrow> ('b, 'db) run" where
  "then_run r f =
     (case r of
        (tr, Fulfilled x, d) \<Rightarrow>
          (case f x d of
             (tr', Thrown e, d') \<Rightarrow> (tr @ tr', Rejected e, d')
           | (tr', r', d') \<Rightarrow> (tr @ tr', r', d'))
      | (tr, Rejected e, d) \<Rightarrow> (tr, Rejected e, d)
      | (tr, Thrown e, d) \<Rightarrow> (tr, Thrown e, d)
      | (tr, Uncaught e, d) \<Rightarrow> (tr, Uncaught e, d))"

text \<open>Events that happen before a call.\<close>

definition after :: "event list \<Rightarrow> ('a, 'db) run \<Rightarrow> ('a, 'db) run" where
  "after evs r = (case r of (tr, x, d) \<Rightarrow> (evs @ tr, x, d))"

text \<open>
  \<^verbatim>\<open>Connection.prototype.query\<close> (lines 151 to 159): the promise is fulfilled with the rows
  or rejected with the error of the callback.
\<close>

definition query :: "'db world \<Rightarrow> stmt \<Rightarrow> 'db \<Rightarrow> (semver list, 'db) run" where
  "query w s d =
     (case client_query w s d of
        (Inl err, d') \<Rightarrow> ([Issue s, Completed s (Some err)], Rejected err, d')
      | (Inr rows, d') \<Rightarrow> ([Issue s, Completed s None], Fulfilled rows, d'))"

text \<open>
  \<^verbatim>\<open>Q.all([conn.query(s1), conn.query(s2)])\<close>: both calls of \<^verbatim>\<open>client.query\<close> are made
  before anything else runs; the client sends the second statement when the first has
  been answered. The promise is fulfilled with the array of both results, or rejected with
  the first error. After a rejection the program sends no further statement, so the
  answer to the second statement is placed before what follows.
\<close>

definition Q_all :: "'db world \<Rightarrow> stmt \<Rightarrow> stmt \<Rightarrow> 'db \<Rightarrow> (semver list list, 'db) run" where
  "Q_all w s1 s2 d =
     (case client_query w s1 d of
        (a1, d1) \<Rightarrow>
          (case client_query w s2 d1 of
             (a2, d2) \<Rightarrow>
               ([Issue s1, Issue s2,
                 Completed s1 (case a1 of Inl err \<Rightarrow> Some err | Inr _ \<Rightarrow> None),
                 Completed s2 (case a2 of Inl err \<Rightarrow> Some err | Inr _ \<Rightarrow> None)],
                (case a1 of
                   Inl err \<Rightarrow> Rejected err
                 | Inr rows1 \<Rightarrow>
                     (case a2 of Inl err \<Rightarrow> Rejected err | Inr rows2 \<Rightarrow> Fulfilled [rows1, rows2])),
                d2)))"

text \<open>
  \<^verbatim>\<open>qMapSerial\<close> (lines 27 to 31): a reduce that chains one \<^verbatim>\<open>then\<close> per element on
  \<^verbatim>\<open>Q(null)\<close>.
\<close>

definition qMapSerial :: "'a list \<Rightarrow> ('a \<Rightarrow> 'db \<Rightarrow> (unit, 'db) run) \<Rightarrow> 'db \<Rightarrow> (unit, 'db) run" where
  "qMapSerial array func d =
     foldl (\<lambda>last x. then_run last (\<lambda>_. func x)) ([], Fulfilled (), d) array"

subsection \<open>The steps of the orchestration\<close>

text \<open>\<^verbatim>\<open>connect\<close> (lines 161 to 176).\<close>

definition connect :: "'db world \<Rightarrow> string \<Rightarrow> 'db \<Rightarrow> (unit, 'db) run" where
  "connect w database d =
     after [Say (Connecting database)]
       (case pg_connect w database of
          Some err \<Rightarrow> ([], Rejected err, d)
        | None \<Rightarrow> then_run (query w BEGIN d) (\<lambda>_ d'. ([], Fulfilled (), d')))"

text \<open>\<^verbatim>\<open>initialize\<close> (lines 180 to 193).\<close>

definition initialize :: "'db world \<Rightarrow> 'db \<Rightarrow> (unit, 'db) run" where
  "initialize w d =
     after [Say Initializing]
       (then_run (Q_all w CREATE_SCHEMA CREATE_TABLE d) (\<lambda>_ d'. ([Say StatusDone], Fulfilled (), d')))"

text \<open>\<^verbatim>\<open>detect\<close> (lines 196 to 210).\<close>

definition detect :: "'db world \<Rightarrow> bool \<Rightarrow> 'db \<Rightarrow> (semver option, 'db) run" where
  "detect w quiet d =
     then_run (query w SELECT_VERSION d)
       (\<lambda>rows d'.
          (case maxSatisfying rows of
             None \<Rightarrow> ([], Fulfilled None, d')
           | Some v \<Rightarrow> ((if \<not> quiet then [Say (CurrentVersion v)] else []), Fulfilled (Some v), d')))"

text \<open>
  \<^verbatim>\<open>runStep\<close> (lines 213 to 236). Reading the file and requiring the script happen in the
  call itself, so their exceptions are thrown by \<^verbatim>\<open>runStep\<close>. \<open>step_finished\<close> is the
  callback of its last \<^verbatim>\<open>then\<close>.
\<close>

definition step_finished :: "bool \<Rightarrow> 'a \<Rightarrow> 'db \<Rightarrow> (unit, 'db) run" where
  "step_finished verbose x d = ((if verbose then [Say DoneMark] else []), Fulfilled (), d)"

definition runStep :: "'db world \<Rightarrow> filepath \<Rightarrow> bool \<Rightarrow> 'db \<Rightarrow> (unit, 'db) run" where
  "runStep w filename verbose d =
     (let announce = (if verbose then [Say (StepHeader (basename filename))] else [])
      in if extname filename = ''.sql'' then
           (case readFileSync w filename of
              Inl err \<Rightarrow> (announce, Thrown err, d)
            | Inr script \<Rightarrow>
                after announce (then_run (query w (SCRIPT script) d) (step_finished verbose)))
         else if extname filename = ''.js'' then
           (case require_call w filename d of
              (ScriptThrew err, d') \<Rightarrow> (announce @ [Invoke filename], Thrown err, d')
            | (ScriptRejected err, d') \<Rightarrow> (announce @ [Invoke filename], Rejected err, d')
            | (ScriptFulfilled, d') \<Rightarrow>
                after (announce @ [Invoke filename])
                  (then_run ([], Fulfilled (), d') (step_finished verbose)))
         else after announce (then_run ([], Fulfilled (), d) (step_finished verbose)))"

text \<open>
  \<^verbatim>\<open>run\<close> (lines 240 to 254); \<open>steps\<close> is its local variable of that name. The steps of
  a single file are called by \<^verbatim>\<open>run\<close> itself, so what they throw, \<^verbatim>\<open>run\<close> throws.
\<close>

definition steps :: "'db world \<Rightarrow> migration \<Rightarrow> 'db \<Rightarrow> (unit, 'db) run" where
  "steps w m d =
     (if multiple m then qMapSerial (files m) (\<lambda>file. runStep w file True) d
      else runStep w (path m) False d)"

definition run :: "'db world \<Rightarrow> migration \<Rightarrow> 'db \<Rightarrow> (unit, 'db) run" where
  "run w m d =
     then_run (steps w m d)
       (\<lambda>_ d'. then_run (query w (INSERT_VERSION (version m)) d') (\<lambda>_ d''. ([], Fulfilled (), d'')))"

text \<open>
  The value that the second \<^verbatim>\<open>then\<close> of \<^verbatim>\<open>migrate\<close> receives as \<^verbatim>\<open>version\<close>: what
  \<^verbatim>\<open>detect\<close> returned (\<^verbatim>\<open>null\<close> or a version), or what the rejection handler of line 266
  returned, which is the array of \<^verbatim>\<open>Q.all\<close>.
\<close>

datatype version_value = Null | Str semver | Arr "semver list list"

text \<open>
  The predicate of the filter (line 273). \<^verbatim>\<open>semver.gt\<close> builds a \<^verbatim>\<open>SemVer\<close> of each
  argument and throws a TypeError for one that is no string.
\<close>

definition is_pending :: "version_value \<Rightarrow> migration \<Rightarrow> error + bool" where
  "is_pending ver m =
     (case ver of
        Null \<Rightarrow> Inr True
      | Str v \<Rightarrow> Inr (semver_gt (version m) v)
      | Arr _ \<Rightarrow> Inl TypeError)"

text \<open>\<^verbatim>\<open>_.filter\<close> with a predicate that may throw.\<close>

fun filter_throwing :: "('a \<Rightarrow> error + bool) \<Rightarrow> 'a list \<Rightarrow> error + 'a list" where
  "filter_throwing p [] = Inr []"
| "filter_throwing p (x # xs) =
     (case p x of
        Inl e \<Rightarrow> Inl e
      | Inr b \<Rightarrow>
          (case filter_throwing p xs of
             Inl e \<Rightarrow> Inl e
           | Inr ys \<Rightarrow> Inr (if b then x # ys else ys)))"

text \<open>
  \<^verbatim>\<open>resume\<close> (lines 276 to 291), on the migrations still in the queue. It runs as a
  \<^verbatim>\<open>process.nextTick\<close> callback: what \<^verbatim>\<open>run\<close> throws is caught by nobody.
  \<open>migration_header\<close> is what it reports before it runs a unit (lines 281 to 283).
\<close>

definition migration_header :: "migration \<Rightarrow> event list" where
  "migration_header m =
     Say (MigrationHeader (version m) (title m @ (if multiple m then ''/'' else [])) (\<not> multiple m))
     # (if multiple m then [Say BlankLine] else [])"

fun resume :: "'db world \<Rightarrow> migration list \<Rightarrow> 'db \<Rightarrow> (unit, 'db) run" where
  "resume w [] d = ([], Fulfilled (), d)"
| "resume w (m # ms) d =
     after (migration_header m)
       (case run w m d of
          (tr, Fulfilled _, d') \<Rightarrow>
            after (tr @ (if \<not> multiple m then [Say DoneMark] else [])) (resume w ms d')
        | (tr, Rejected e, d') \<Rightarrow> (tr, Rejected e, d')
        | (tr, Thrown e, d') \<Rightarrow> (tr, Uncaught e, d')
        | (tr, Uncaught e, d') \<Rightarrow> (tr, Uncaught e, d'))"

text \<open>
  \<^verbatim>\<open>migrate\<close> (lines 257 to 302). \<open>versionPromise\<close> is its local variable of that name:
  \<^verbatim>\<open>detect\<close> with a rejection handler that returns
  \<^verbatim>\<open>Q.all([conn.query('ROLLBACK'), conn.query('BEGIN')])\<close>.
\<close>

definition versionPromise :: "'db world \<Rightarrow> 'db \<Rightarrow> (version_value, 'db) run" where
  "versionPromise w d =
     (case detect w False d of
        (tr, Fulfilled None, d') \<Rightarrow> (tr, Fulfilled Null, d')
      | (tr, Fulfilled (Some v), d') \<Rightarrow> (tr, Fulfilled (Str v), d')
      | (tr, Rejected reason, d') \<Rightarrow>
          after tr (then_run (Q_all w ROLLBACK BEGIN d') (\<lambda>rows d''. ([], Fulfilled (Arr rows), d'')))
      | (tr, Thrown e, d') \<Rightarrow> (tr, Thrown e, d')
      | (tr, Uncaught e, d') \<Rightarrow> (tr, Uncaught e, d'))"

definition migrate :: "'db world \<Rightarrow> migration list \<Rightarrow> 'db \<Rightarrow> (unit, 'db) run" where
  "migrate w migrations d =
     then_run (versionPromise w d)
       (\<lambda>ver d'.
          (case filter_throwing (is_pending ver) migrations of
             Inl e \<Rightarrow> ([], Thrown e, d')
           | Inr pending \<Rightarrow>
               after (if pending \<noteq> [] then [Say MigratingDatabase] else []) (resume w pending d')))"

text \<open>\<^verbatim>\<open>load\<close> (lines 305 to 318), on the list of scripts.\<close>

definition load :: "'db world \<Rightarrow> filepath list \<Rightarrow> 'db \<Rightarrow> (unit, 'db) run" where
  "load w scripts d =
     qMapSerial scripts
       (\<lambda>filename d'.
          (case readFileSync w filename of
             Inl err \<Rightarrow> ([], Thrown err, d')
           | Inr content \<Rightarrow>
               after [Say (Loading filename)]
                 (then_run (query w (SCRIPT content) d') (\<lambda>_ d''. ([Say BlankLine], Fulfilled (), d'')))))
       d"

text \<open>\<^verbatim>\<open>check\<close> (lines 321 to 340).\<close>

definition check :: "'db world \<Rightarrow> semver option \<Rightarrow> 'db \<Rightarrow> (unit, 'db) run" where
  "check w lastMigration d =
     then_run (detect w True d)
       (\<lambda>detected d'.
          (case check_verdict lastMigration detected of
             Inl e \<Rightarrow> ([Say BlankLine], Thrown e, d')
           | Inr UpToDate \<Rightarrow> ([Say BlankLine, Say UpToDateMessage], Fulfilled (), d')
           | Inr NewerCompatible \<Rightarrow> ([Say BlankLine, Say NewerWarning], Fulfilled (), d')))"

text \<open>\<^verbatim>\<open>reset\<close> (lines 343 to 352) and \<^verbatim>\<open>finish\<close> (lines 354 to 358).\<close>

definition reset :: "'db world \<Rightarrow> 'db \<Rightarrow> (unit, 'db) run" where
  "reset w d =
     after [Say Resetting]
       (then_run (query w DELETE_MIGRATIONS d) (\<lambda>_ d'. ([Say StatusDone], Fulfilled (), d')))"

definition finish :: "'db world \<Rightarrow> 'db \<Rightarrow> (unit, 'db) run" where
  "finish w d = then_run (query w COMMIT d) (\<lambda>_ d'. ([], Fulfilled (), d'))"

text \<open>
  The step of lines 375 to 378: \<^verbatim>\<open>finish()\<close>, or for a dry run the function that
  reports \<^verbatim>\<open>Reverting...\<close> and returns the connection.
\<close>

definition finalizing :: "'db world \<Rightarrow> bool \<Rightarrow> 'db \<Rightarrow> (unit, 'db) run" where
  "finalizing w dry d = (if \<not> dry then finish w d else ([Say Reverting], Fulfilled (), d))"

text \<open>
  \<^verbatim>\<open>promise.fin(f)\<close> of Q takes one function and calls it without arguments when the
  promise has settled, fulfilled or rejected; the promise it returns settles as the first
  did. \<^verbatim>\<open>semigrate\<close> passes \<^verbatim>\<open>callback.bind(null, null)\<close> as that function, and a second
  argument that \<^verbatim>\<open>fin\<close> does not read. \<open>called\<close> is what calling the function does.
\<close>

definition fin :: "('a, 'db) run \<Rightarrow> event list \<Rightarrow> ('a, 'db) run" where
  "fin r called =
     (case r of
        (tr, Fulfilled x, d) \<Rightarrow> (tr @ called, Fulfilled x, d)
      | (tr, Rejected e, d) \<Rightarrow> (tr @ called, Rejected e, d)
      | (tr, Thrown e, d) \<Rightarrow> (tr, Thrown e, d)
      | (tr, Uncaught e, d) \<Rightarrow> (tr, Uncaught e, d))"

text \<open>
  The configuration; \<^verbatim>\<open>config.reset\<close>, \<^verbatim>\<open>config.migrate\<close> and \<^verbatim>\<open>config['dry-run']\<close> by
  their truth value, \<^verbatim>\<open>config.load || []\<close> as a list.
\<close>

record config =
  opt_directory :: "filepath option"
  opt_database :: string
  opt_reset :: bool
  opt_migrate :: bool
  opt_dry_run :: bool
  opt_load :: "filepath list"

text \<open>
  \<^verbatim>\<open>semigrate\<close> (lines 361 to 381), on the configuration or \<open>None\<close> for
  \<^verbatim>\<open>undefined\<close>. Line 362 reads \<^verbatim>\<open>config.colors\<close> before line 364 replaces a missing
  configuration.
\<close>

definition semigrate :: "'db world \<Rightarrow> config option \<Rightarrow> 'db \<Rightarrow> (unit, 'db) run" where
  "semigrate w config d =
     (case config of
        None \<Rightarrow> ([], Thrown TypeError, d)
      | Some c \<Rightarrow>
          (case list w (case opt_directory c of None \<Rightarrow> [''.''] | Some p \<Rightarrow> if p = [] then [''.''] else p) of
             Inl e \<Rightarrow> ([], Thrown e, d)
           | Inr migrations \<Rightarrow>
               (let lastMigration = maxSatisfying (map version migrations);
                    connected = connect w (opt_database c) d;
                    initialized = then_run connected (\<lambda>_. initialize w);
                    was_reset = (if opt_reset c then then_run initialized (\<lambda>_. reset w) else initialized);
                    migrated = (if opt_migrate c then then_run was_reset (\<lambda>_. migrate w migrations)
                                else was_reset);
                    loaded = then_run migrated (\<lambda>_. load w (opt_load c));
                    finalized = then_run loaded (\<lambda>_. finalizing w (opt_dry_run c));
                    checked = then_run finalized (\<lambda>_. check w lastMigration)
                in fin checked [Callback None])))"

subsection \<open>Reading a trace\<close>

text \<open>
  The statements in flight after some events, and the pairs (statement in flight,
  statement issued) at every \<open>Issue\<close> that happens while a statement is in flight.
\<close>

fun in_flight :: "stmt list \<Rightarrow> event list \<Rightarrow> stmt list" where
  "in_flight out [] = out"
| "in_flight out (Issue s # evs) = in_flight (out @ [s]) evs"
| "in_flight out (Completed s err # evs) = in_flight (remove1 s out) evs"
| "in_flight out (ev # evs) = in_flight out evs"

fun overlaps :: "stmt list \<Rightarrow> event list \<Rightarrow> (stmt \<times> stmt) list" where
  "overlaps out [] = []"
| "overlaps out (Issue s # evs) = map (\<lambda>other. (other, s)) out @ overlaps (out @ [s]) evs"
| "overlaps out (Completed s err # evs) = overlaps (remove1 s out) evs"
| "overlaps out (ev # evs) = overlaps out evs"

text \<open>
  The versions of the units that \<^verbatim>\<open>resume\<close> started (it reports each one's header first),
  and the versions whose bookkeeping insert succeeded.
\<close>

fun started :: "event list \<Rightarrow> semver list" where
  "started [] = []"
| "started (Say (MigrationHeader v t line) # evs) = v # started evs"
| "started (ev # evs) = started evs"

fun recorded :: "event list \<Rightarrow> semver list" where
  "recorded [] = []"
| "recorded (Completed (INSERT_VERSION v) None # evs) = v # recorded evs"
| "recorded (ev # evs) = recorded evs"

text \<open>
  Properties of traces that hold of the empty trace and of \<open>a @ b\<close> when they hold of
  \<open>a\<close> and of \<open>b\<close>. A \<open>step_property\<close> also holds of what the steps of a unit emit; a
  \<open>trace_property\<close> of everything the program emits but the COMMIT and the callback:
  console output, the statements it sends one by one (\<open>sent_alone\<close>, and the scripts)
  and the two pairs it hands to \<^verbatim>\<open>Q.all\<close>.
\<close>

definition step_property :: "(event list \<Rightarrow> bool) \<Rightarrow> bool" where
  "step_property P =
     (P [] \<and> (\<forall>a b. P a \<longrightarrow> P b \<longrightarrow> P (a @ b)) \<and>
      (\<forall>name. P [Say (StepHeader name)]) \<and> P [Say DoneMark] \<and>
      (\<forall>file. P [Invoke file]) \<and>
      (\<forall>text err. P [Issue (SCRIPT text), Completed (SCRIPT text) err]))"

definition sent_alone :: "stmt \<Rightarrow> bool" where
  "sent_alone s =
     (case s of
        BEGIN \<Rightarrow> True | SELECT_VERSION \<Rightarrow> True | INSERT_VERSION v \<Rightarrow> True
      | DELETE_MIGRATIONS \<Rightarrow> True | _ \<Rightarrow> False)"

definition trace_property :: "(event list \<Rightarrow> bool) \<Rightarrow> bool" where
  "trace_property P =
     (step_property P \<and> (\<forall>m. P [Say m]) \<and>
      (\<forall>s err. sent_alone s \<longrightarrow> P [Issue s, Completed s err]) \<and>
      (\<forall>e1 e2. P [Issue CREATE_SCHEMA, Issue CREATE_TABLE,
                  Completed CREATE_SCHEMA e1, Completed CREATE_TABLE e2]) \<and>
      (\<forall>e1 e2. P [Issue ROLLBACK, Issue BEGIN, Completed ROLLBACK e1, Completed BEGIN e2]))"

text \<open>
  A trace is \<open>calm\<close> when it leaves no statement in flight and every statement issued
  while another was in flight is the second of one of the two pairs that the program
  hands to \<^verbatim>\<open>Q.all\<close>.
\<close>

definition allowed_overlap :: "stmt \<times> stmt \<Rightarrow> bool" where
  "allowed_overlap p = (p = (CREATE_SCHEMA, CREATE_TABLE) \<or> p = (ROLLBACK, BEGIN))"

definition calm :: "event list \<Rightarrow> bool" where
  "calm tr = (in_flight [] tr = [] \<and> list_all allowed_overlap (overlaps [] tr))"


text \<open>
  The pending set in the words of the specification: the units of the catalog whose
  version is greater than the detected one, all of them when no version is detected, in
  the order of the catalog.
\<close>

definition spec_pending :: "semver option \<Rightarrow> migration list \<Rightarrow> migration list" where
  "spec_pending detected catalog =
     filter (\<lambda>unit. case detected of None \<Rightarrow> True | Some v \<Rightarrow> semver_gt (version unit) v) catalog"



text \<open>
  What the world answers to the step of one file, read off the world alone: whether the
  step succeeds (the file is read and its script is answered without error, or the
  procedural migration ends fulfilled; a file of another type has nothing to do), and the
  state it leaves. \<open>all_answered\<close>: every step of a list of files succeeds, each in the
  state the one before it left.
\<close>

definition step_answer :: "'db world \<Rightarrow> filepath \<Rightarrow> 'db \<Rightarrow> bool \<times> 'db" where
  "step_answer w file d =
     (if extname file = ''.sql'' then
        (case readFileSync w file of
           Inl err \<Rightarrow> (False, d)
         | Inr script \<Rightarrow>
             (case client_query w (SCRIPT script) d of
                (Inl err, d') \<Rightarrow> (False, d')
              | (Inr rows, d') \<Rightarrow> (True, d')))
      else if extname file = ''.js'' then
        (case require_call w file d of
           (ScriptFulfilled, d') \<Rightarrow> (True, d')
         | (ScriptRejected err, d') \<Rightarrow> (False, d')
         | (ScriptThrew err, d') \<Rightarrow> (False, d'))
      else (True, d))"

fun all_answered :: "'db world \<Rightarrow> filepath list \<Rightarrow> 'db \<Rightarrow> bool" where
  "all_answered w [] d = True"
| "all_answered w (file # rest) d =
     (case step_answer w file d of (ok, d') \<Rightarrow> ok \<and> all_answered w rest d')"

text \<open>The files whose steps make up a unit: those of the group, or the single file.\<close>

definition step_files :: "migration \<Rightarrow> filepath list" where
  "step_files m = (if multiple m then files m else [path m])"

text \<open>
  The calls of \<^verbatim>\<open>run\<close> that a queue is due, in the words of the specification: the first
  unit is run, and each further unit is run when the one before it is fulfilled, in the
  state that one left. Each entry holds the unit, the events of its \<^verbatim>\<open>run\<close> and how it
  ended. \<open>unit_events\<close> is what \<^verbatim>\<open>resume\<close> emits for one entry: the header, the events of
  \<^verbatim>\<open>run\<close>, and \<^verbatim>\<open>done\<close> for a single file that succeeded.
\<close>

fun due_runs :: "'db world \<Rightarrow> migration list \<Rightarrow> 'db \<Rightarrow> (migration \<times> event list \<times> unit result) list" where
  "due_runs w [] d = []"
| "due_runs w (m # ms) d =
     (case run w m d of
        (tr, r, d') \<Rightarrow> (m, tr, r) # (if r = Fulfilled () then due_runs w ms d' else []))"

definition unit_events :: "migration \<times> event list \<times> unit result \<Rightarrow> event list" where
  "unit_events x =
     (case x of
        (m, tr, r) \<Rightarrow>
          migration_header m @ tr @ (if r = Fulfilled () \<and> \<not> multiple m then [Say DoneMark] else []))"

text \<open>
  The entries of a directory that are migrations: the name is a valid version, a hyphen
  and a title, and the entry is a directory or a file of a recognised type.
\<close>

definition is_migration_entry :: "'db world \<Rightarrow> filepath \<Rightarrow> bool" where
  "is_migration_entry w spec =
     (case matchSpec (basename spec) of
        None \<Rightarrow> False
      | Some (v, t) \<Rightarrow>
          (case semver_valid w v of
             None \<Rightarrow> False
           | Some ver \<Rightarrow> isDirectory w spec = Inr True \<or> validMigrationType spec))"

text \<open>The steps of a group that reported \<^verbatim>\<open>done\<close>.\<close>

definition done_marks :: "event list \<Rightarrow> nat" where
  "done_marks tr = count_list tr (Say DoneMark)"

subsection \<open>A small world to run the program in\<close>

text \<open>
  \<^verbatim>\<open>semver.valid\<close> on plain versions: three numbers separated by dots, each \<^verbatim>\<open>0\<close> or
  digits that do not start with \<^verbatim>\<open>0\<close>.
\<close>

definition numeric_identifier :: "string \<Rightarrow> nat option" where
  "numeric_identifier s =
     (if s = [] then None
      else if list_ex (\<lambda>c. c \<notin> set ''0123456789'') s then None
      else if hd s = CHR ''0'' \<and> length s \<noteq> 1 then None
      else Some (foldl (\<lambda>n c. 10 * n + (of_char c - 48)) 0 s))"

definition plain_valid :: "string \<Rightarrow> semver option" where
  "plain_valid s =
     (let a = takeWhile (\<lambda>c. c \<noteq> CHR ''.'') s;
          s' = drop (length a + 1) s;
          b = takeWhile (\<lambda>c. c \<noteq> CHR ''.'') s';
          c = drop (length b + 1) s'
      in case (numeric_identifier a, numeric_identifier b, numeric_identifier c) of
           (Some x, Some y, Some z) \<Rightarrow> Some (SemVer x y z)
         | _ \<Rightarrow> None)"

text \<open>
  A server with one table and transactions: its state is the rows that are committed and
  the rows as the session sees them. \<^verbatim>\<open>COMMIT\<close> makes the session's rows the committed
  ones, \<^verbatim>\<open>ROLLBACK\<close> gives the session the committed rows back. An insert of a version
  already there fails, and so does a script whose text is \<^verbatim>\<open>FAIL\<close>. With \<open>no_table\<close> the
  select fails, as it does when the table is missing.
\<close>

type_synonym demo_db = "semver list \<times> semver list"

definition demo_query :: "bool \<Rightarrow> stmt \<Rightarrow> demo_db \<Rightarrow> (error + semver list) \<times> demo_db" where
  "demo_query no_table s db =
     (case db of
        (committed, rows) \<Rightarrow>
          (case s of
             SELECT_VERSION \<Rightarrow>
               if no_table then (Inl (PgError ''relation does not exist''), db) else (Inr rows, db)
           | INSERT_VERSION v \<Rightarrow>
               if v \<in> set rows then (Inl (PgError ''duplicate key''), db)
               else (Inr [], (committed, rows @ [v]))
           | DELETE_MIGRATIONS \<Rightarrow> (Inr [], (committed, []))
           | SCRIPT body \<Rightarrow>
               if body = ''FAIL'' then (Inl (PgError ''syntax error''), db) else (Inr [], db)
           | COMMIT \<Rightarrow> (Inr [], (rows, rows))
           | ROLLBACK \<Rightarrow> (Inr [], (committed, committed))
           | _ \<Rightarrow> (Inr [], db)))"

text \<open>
  The directory of the README, with one more entry that is no migration, a second
  directory that holds two entries of the same version, and a third whose second unit
  fails (the files named \<^verbatim>\<open>...-broken.sql\<close> hold the text \<^verbatim>\<open>FAIL\<close>).
\<close>

definition demo_readdir :: "filepath \<Rightarrow> error + string list" where
  "demo_readdir p =
     (if p = [''migrations''] then
        Inr [''0.0.1-initial-schema'', ''0.0.2-add-views.sql'', ''1.0.0-production.sql'', ''README.md'']
      else if p = [''migrations'', ''0.0.1-initial-schema''] then
        Inr [''0001-tables.sql'', ''0002-views.sql'', ''0003-functions.sql'']
      else if p = [''twice''] then Inr [''1.0.0-a.sql'', ''1.0.0-b.sql'']
      else if p = [''failing''] then Inr [''1.2.0-never.sql'', ''1.0.0-ok.sql'', ''1.1.0-broken.sql'']
      else if p = [''mixed''] then Inr [''1.0.0-a.sql'', ''1.0.0-b.txt'']
      else Inl (FsError ''ENOENT''))"

definition empty_db :: demo_db where
  "empty_db = ([], [])"

definition demo_world :: "bool \<Rightarrow> demo_db world" where
  "demo_world no_table =
     \<lparr>pg_connect = (\<lambda>database. if database = ''down'' then Some (PgError ''ECONNREFUSED'') else None),
      client_query = demo_query no_table,
      readdirSync = demo_readdir,
      isDirectory = (\<lambda>p. Inr (p = [''migrations'', ''0.0.1-initial-schema''])),
      readFileSync =
        (\<lambda>p. Inr (if basename p = ''1.1.0-broken.sql'' \<or> basename p = ''0002-broken.sql''
                   then ''FAIL'' else basename p)),
      require_call = (\<lambda>p d. (ScriptFulfilled, d)),
      semver_valid = plain_valid\<rparr>"

text \<open>
  A configuration for the directory of the README; single-file units and the group of
  the README as values, to run \<^verbatim>\<open>resume\<close> on.
\<close>

definition demo_config :: "string \<Rightarrow> bool \<Rightarrow> config" where
  "demo_config database dry =
     \<lparr>opt_directory = Some [''migrations''], opt_database = database, opt_reset = False,
      opt_migrate = True, opt_dry_run = dry, opt_load = []\<rparr>"

definition single :: "semver \<Rightarrow> string \<Rightarrow> migration" where
  "single v name = \<lparr>version = v, title = name, multiple = False, path = [name], files = [[name]]\<rparr>"

definition broken_group :: migration where
  "broken_group =
     \<lparr>version = SemVer 1 1 0, title = ''broken'', multiple = True,
      path = [''1.1.0-broken''],
      files = [[''1.1.0-broken'', ''0001-ok.sql''],
               [''1.1.0-broken'', ''0002-broken.sql''],
               [''1.1.0-broken'', ''0003-never.sql'']]\<rparr>"

definition demo_group :: migration where
  "demo_group =
     \<lparr>version = SemVer 0 0 1, title = ''initial-schema'', multiple = True,
      path = [''migrations'', ''0.0.1-initial-schema''],
      files = [[''migrations'', ''0.0.1-initial-schema'', ''0001-tables.sql''],
               [''migrations'', ''0.0.1-initial-schema'', ''0002-views.sql''],
               [''migrations'', ''0.0.1-initial-schema'', ''0003-functions.sql'']]\<rparr>"

section \<open>Comparing versions\<close>

lemma semver_compare_cases:
  "semver_compare a b =
     (if major a < major b then - 1 else if major b < major a then 1
      else if minor a < minor b then - 1 else if minor b < minor a then 1
      else if patch a < patch b then - 1 else if patch b < patch a then 1 else 0)"
  by (simp add: semver_compare_def compareIdentifiers_def)

lemma check_verdict_newer:
  assumes "semver_gt v t"
  shows "check_verdict (Some t) (Some v) =
           (if major v = major t \<and> (major t = 0 \<longrightarrow> minor v = minor t \<and> minor t \<noteq> 0)
            then Inr NewerCompatible else Inl Incompatible)"
  using assms
  by (cases v; cases t)
     (auto simp: check_verdict_def semver_gt_def semver_eq_def satisfies_caret_def
        caret_bound_def semver_compare_cases split: if_splits)

section \<open>What every step emits\<close>

lemma fst_after: "fst (after evs r) = evs @ fst r"
  by (cases r) (simp add: after_def)

lemma end_after: "fst (snd (after evs r)) = fst (snd r)"
  by (cases r) (simp add: after_def)


lemma property_append: "step_property P \<Longrightarrow> P a \<Longrightarrow> P b \<Longrightarrow> P (a @ b)"
  by (simp add: step_property_def)

lemma property_Nil: "step_property P \<Longrightarrow> P []"
  by (simp add: step_property_def)

lemma trace_step: "trace_property P \<Longrightarrow> step_property P"
  by (simp add: trace_property_def)

lemma P_then_run:
  assumes "step_property P" "P (fst r)" "\<And>x d. P (fst (f x d))"
  shows "P (fst (then_run r f))"
proof (cases r)
  case (fields tr res d)
  show ?thesis
  proof (cases res)
    case (Fulfilled x)
    obtain tr' r' d' where f: "f x d = (tr', r', d')" by (cases "f x d")
    have "P tr'" using assms(3) [of x d] f by simp
    then have "P (tr @ tr')" using assms(1,2) fields by (simp add: property_append)
    then show ?thesis using fields Fulfilled f
      by (cases r') (simp_all add: then_run_def)
  qed (use assms(2) fields in \<open>simp_all add: then_run_def\<close>)
qed

lemma P_after:
  assumes "step_property P" "P evs" "P (fst r)"
  shows "P (fst (after evs r))"
  using assms by (simp add: fst_after property_append)

lemma P_qMapSerial_from:
  assumes "step_property P" "\<And>x d. P (fst (func x d))" "P (fst start)"
  shows "P (fst (foldl (\<lambda>last x. then_run last (\<lambda>_. func x)) start array))"
  using assms(3)
proof (induction array arbitrary: start)
  case Nil
  then show ?case by simp
next
  case (Cons x xs)
  have "P (fst (then_run start (\<lambda>_. func x)))"
    using assms(1) Cons.prems assms(2) by (rule P_then_run)
  then show ?case using Cons.IH by simp
qed

lemma P_qMapSerial:
  assumes "step_property P" "\<And>x d. P (fst (func x d))"
  shows "P (fst (qMapSerial array func d))"
  unfolding qMapSerial_def
  by (rule P_qMapSerial_from [OF assms]) (simp add: property_Nil [OF assms(1)])

lemma P_query_script:
  assumes "step_property P"
  shows "P (fst (query w (SCRIPT text) d))"
  using assms by (auto simp: query_def step_property_def split: prod.splits sum.splits)

lemma sent_alone_simps [simp]:
  "sent_alone BEGIN" "sent_alone SELECT_VERSION" "sent_alone (INSERT_VERSION v)"
  "sent_alone DELETE_MIGRATIONS" "\<not> sent_alone COMMIT" "\<not> sent_alone ROLLBACK"
  "\<not> sent_alone CREATE_SCHEMA" "\<not> sent_alone CREATE_TABLE" "\<not> sent_alone (SCRIPT body)"
  by (simp_all add: sent_alone_def)

lemma P_query:
  assumes "trace_property P" "sent_alone s"
  shows "P (fst (query w s d))"
  using assms by (auto simp: query_def trace_property_def split: prod.splits sum.splits)

lemma P_step_finished: "step_property P \<Longrightarrow> P (fst (step_finished verbose x d))"
  by (simp add: step_finished_def step_property_def)

lemma P_runStep:
  assumes "step_property P"
  shows "P (fst (runStep w filename verbose d))"
proof -
  define h where "h = (if verbose then [Say (StepHeader (basename filename))] else [])"
  have h: "P h"
    using assms by (simp add: h_def step_property_def)
  have i: "P [Invoke filename]" using assms by (simp add: step_property_def)
  have hi: "P (h @ [Invoke filename])"
    using assms h i by (rule property_append)
  have q: "P (fst (then_run (query w (SCRIPT body) d) (step_finished verbose)))" for body
    by (rule P_then_run [OF assms P_query_script [OF assms] P_step_finished [OF assms]])
  have n: "P (fst (then_run (([], Fulfilled (), d') :: (unit, 'a) run) (step_finished verbose)))" for d'
    by (rule P_then_run [OF assms _ P_step_finished [OF assms]]) (simp add: property_Nil [OF assms])
  have qa: "P (fst (after h (then_run (query w (SCRIPT body) d) (step_finished verbose))))" for body
    by (rule P_after [OF assms h q])
  have na: "P (fst (after h (then_run (([], Fulfilled (), d) :: (unit, 'a) run) (step_finished verbose))))"
    by (rule P_after [OF assms h n])
  have ja: "P (fst (after (h @ [Invoke filename]) (then_run (([], Fulfilled (), d') :: (unit, 'a) run) (step_finished verbose))))" for d'
    by (rule P_after [OF assms hi n])
  show ?thesis
    unfolding runStep_def Let_def h_def [symmetric]
    using h hi qa na ja
    by (simp split: sum.split prod.split script_end.split)
qed

lemma P_steps: "step_property P \<Longrightarrow> P (fst (steps w m d))"
  by (simp add: steps_def P_qMapSerial P_runStep)

lemma P_run:
  assumes "trace_property P"
  shows "P (fst (run w m d))"
proof -
  note sp = trace_step [OF assms]
  have ins: "P (fst (then_run (query w (INSERT_VERSION (version m)) d') (\<lambda>_ d''. ([], Fulfilled (), d''))))" for d'
    by (rule P_then_run [OF sp P_query [OF assms]]) (simp_all add: property_Nil [OF sp])
  show ?thesis
    unfolding run_def
    by (rule P_then_run [OF sp P_steps [OF sp] ins])
qed


lemma P_say: "trace_property P \<Longrightarrow> P [Say m]"
  by (simp add: trace_property_def)

lemma P_then_done:
  assumes "step_property P" "P (fst r)" "P evs"
  shows "P (fst (then_run r (\<lambda>_ d'. (evs, Fulfilled y, d'))))"
  by (rule P_then_run [OF assms(1,2)]) (simp add: assms(3))

lemma P_Q_all_initialize:
  "trace_property P \<Longrightarrow> P (fst (Q_all w CREATE_SCHEMA CREATE_TABLE d))"
  by (simp add: Q_all_def trace_property_def split: prod.split)

lemma P_Q_all_recover:
  "trace_property P \<Longrightarrow> P (fst (Q_all w ROLLBACK BEGIN d))"
  by (simp add: Q_all_def trace_property_def split: prod.split)

lemma P_connect:
  assumes "trace_property P"
  shows "P (fst (connect w database d))"
proof -
  note sp = trace_step [OF assms]
  have b: "P (fst (then_run (query w BEGIN d) (\<lambda>_ d'. ([], Fulfilled (), d'))))"
    by (rule P_then_done [OF sp P_query [OF assms] property_Nil [OF sp]]) simp
  have "P (fst (case pg_connect w database of
            Some err \<Rightarrow> ([], Rejected err, d)
          | None \<Rightarrow> then_run (query w BEGIN d) (\<lambda>_ d'. ([], Fulfilled (), d'))))"
    using b by (simp add: property_Nil [OF sp] split: option.split)
  then show ?thesis
    unfolding connect_def by (rule P_after [OF sp P_say [OF assms]])
qed

lemma P_initialize:
  assumes "trace_property P"
  shows "P (fst (initialize w d))"
  unfolding initialize_def
  by (rule P_after [OF trace_step [OF assms] P_say [OF assms]
        P_then_done [OF trace_step [OF assms] P_Q_all_initialize [OF assms] P_say [OF assms]]])

lemma P_reset:
  assumes "trace_property P"
  shows "P (fst (reset w d))"
  unfolding reset_def
  by (rule P_after [OF trace_step [OF assms] P_say [OF assms]
        P_then_done [OF trace_step [OF assms] P_query [OF assms] P_say [OF assms]]]) simp

lemma P_detect:
  assumes "trace_property P"
  shows "P (fst (detect w quiet d))"
  unfolding detect_def
  by (rule P_then_run [OF trace_step [OF assms] P_query [OF assms]])
     (simp_all add: property_Nil [OF trace_step [OF assms]] P_say [OF assms] split: option.split)

lemma P_resume:
  assumes "trace_property P"
  shows "P (fst (resume w ms d))"
proof (induction ms arbitrary: d)
  case Nil
  show ?case by (simp add: property_Nil [OF trace_step [OF assms]])
next
  case (Cons m ms)
  note sp = trace_step [OF assms]
  have "P ([Say (MigrationHeader (version m) (title m @ (if multiple m then ''/'' else [])) (\<not> multiple m))]
          @ (if multiple m then [Say BlankLine] else []))"
    by (rule property_append [OF sp P_say [OF assms]]) (simp add: P_say [OF assms] property_Nil [OF sp])
  then have header: "P (migration_header m)" by (simp add: migration_header_def)
  obtain tr r d' where run: "run w m d = (tr, r, d')" by (cases "run w m d")
  have tr: "P tr" using P_run [OF assms, of w m d] run by simp
  have "P (if \<not> multiple m then [Say DoneMark] else [])"
    by (simp add: P_say [OF assms] property_Nil [OF sp])
  then have trd: "P (tr @ (if \<not> multiple m then [Say DoneMark] else []))"
    by (rule property_append [OF sp tr])
  have rest: "P (fst (after (tr @ (if \<not> multiple m then [Say DoneMark] else [])) (resume w ms d')))"
    by (rule P_after [OF sp trd Cons.IH])
  have "P (fst (case run w m d of
            (tr, Fulfilled _, d') \<Rightarrow>
              after (tr @ (if \<not> multiple m then [Say DoneMark] else [])) (resume w ms d')
          | (tr, Rejected e, d') \<Rightarrow> (tr, Rejected e, d')
          | (tr, Thrown e, d') \<Rightarrow> (tr, Uncaught e, d')
          | (tr, Uncaught e, d') \<Rightarrow> (tr, Uncaught e, d')))"
    using tr rest by (cases r) (simp_all add: run)
  then show ?case
    unfolding resume.simps
    by (rule P_after [OF sp header])
qed

lemma P_versionPromise:
  assumes "trace_property P"
  shows "P (fst (versionPromise w d))"
proof -
  note sp = trace_step [OF assms]
  obtain tr r d' where det: "detect w False d = (tr, r, d')" by (cases "detect w False d")
  have tr: "P tr" using P_detect [OF assms, of w False d] det by simp
  have rec: "P (fst (after tr (then_run (Q_all w ROLLBACK BEGIN d')
                (\<lambda>rows d''. ([], Fulfilled (Arr rows), d'')))))"
    by (rule P_after [OF sp tr P_then_run [OF sp P_Q_all_recover [OF assms]]])
       (simp add: property_Nil [OF sp])
  show ?thesis
    using tr rec by (cases r) (simp_all add: versionPromise_def det split: option.split)
qed

lemma P_migrate:
  assumes "trace_property P"
  shows "P (fst (migrate w migrations d))"
proof -
  note sp = trace_step [OF assms]
  have "P (fst (case filter_throwing (is_pending ver) migrations of
             Inl e \<Rightarrow> ([], Thrown e, d')
           | Inr pending \<Rightarrow>
               after (if pending \<noteq> [] then [Say MigratingDatabase] else []) (resume w pending d')))"
    for ver and d' :: 'a
  proof (cases "filter_throwing (is_pending ver) migrations")
    case (Inl e)
    then show ?thesis by (simp add: property_Nil [OF sp])
  next
    case (Inr pending)
    have "P (if pending \<noteq> [] then [Say MigratingDatabase] else [])"
      by (simp add: P_say [OF assms] property_Nil [OF sp])
    then have "P (fst (after (if pending \<noteq> [] then [Say MigratingDatabase] else []) (resume w pending d')))"
      by (rule P_after [OF sp _ P_resume [OF assms]])
    then show ?thesis by (simp add: Inr)
  qed
  then show ?thesis
    unfolding migrate_def
    by (rule P_then_run [OF sp P_versionPromise [OF assms]])
qed

lemma P_load:
  assumes "trace_property P"
  shows "P (fst (load w scripts d))"
proof -
  note sp = trace_step [OF assms]
  have "P (fst (case readFileSync w filename of
             Inl err \<Rightarrow> ([], Thrown err, d')
           | Inr content \<Rightarrow>
               after [Say (Loading filename)]
                 (then_run (query w (SCRIPT content) d') (\<lambda>_ d''. ([Say BlankLine], Fulfilled (), d'')))))"
    for filename and d' :: 'a
  proof (cases "readFileSync w filename")
    case (Inl err)
    then show ?thesis by (simp add: property_Nil [OF sp])
  next
    case (Inr content)
    have "P (fst (after [Say (Loading filename)]
                 (then_run (query w (SCRIPT content) d') (\<lambda>_ d''. ([Say BlankLine], Fulfilled (), d'')))))"
      by (rule P_after [OF sp P_say [OF assms] P_then_done [OF sp P_query_script [OF sp] P_say [OF assms]]])
    then show ?thesis by (simp add: Inr)
  qed
  then show ?thesis
    unfolding load_def by (rule P_qMapSerial [OF sp])
qed

lemma P_check:
  assumes "trace_property P"
  shows "P (fst (check w lastMigration d))"
proof -
  note sp = trace_step [OF assms]
  have two: "P [Say a, Say b]" for a b
    using property_append [OF sp P_say [OF assms, of a] P_say [OF assms, of b]] by simp
  show ?thesis
    unfolding check_def
    by (rule P_then_run [OF sp P_detect [OF assms]])
       (simp add: two P_say [OF assms] split: sum.split verdict.split)
qed

lemma P_finish:
  assumes "trace_property P" "\<And>err. P [Issue COMMIT, Completed COMMIT err]"
  shows "P (fst (finish w d))"
proof -
  have "P (fst (query w COMMIT d))"
    using assms(2) by (simp add: query_def split: prod.split sum.split)
  then show ?thesis
    unfolding finish_def
    by (rule P_then_done [OF trace_step [OF assms(1)] _ property_Nil [OF trace_step [OF assms(1)]]])
qed

lemma P_finalizing:
  assumes "trace_property P" "dry \<or> (\<forall>err. P [Issue COMMIT, Completed COMMIT err])"
  shows "P (fst (finalizing w dry d))"
  using assms P_finish [OF assms(1), of w d] by (auto simp: finalizing_def P_say)

lemma P_fin:
  assumes "step_property P" "P (fst r)" "P called"
  shows "P (fst (fin r called))"
proof (cases r)
  case (fields tr res d)
  then show ?thesis
    using assms(2) property_append [OF assms(1) _ assms(3), of tr]
    by (cases res) (simp_all add: fin_def)
qed

lemma P_semigrate:
  assumes "trace_property P" "P [Callback None]"
    and "opt_dry_run c \<or> (\<forall>err. P [Issue COMMIT, Completed COMMIT err])"
  shows "P (fst (semigrate w (Some c) d))"
proof -
  note sp = trace_step [OF assms(1)]
  define dir where "dir = (case opt_directory c of None \<Rightarrow> [''.''] | Some p \<Rightarrow> if p = [] then [''.''] else p)"
  show ?thesis
  proof (cases "list w dir")
    case (Inl e)
    then show ?thesis by (simp add: semigrate_def dir_def [symmetric] property_Nil [OF sp])
  next
    case (Inr migrations)
    define connected where "connected = connect w (opt_database c) d"
    define initialized where "initialized = then_run connected (\<lambda>_. initialize w)"
    define was_reset where
      "was_reset = (if opt_reset c then then_run initialized (\<lambda>_. reset w) else initialized)"
    define migrated where
      "migrated = (if opt_migrate c then then_run was_reset (\<lambda>_. migrate w migrations) else was_reset)"
    define loaded where "loaded = then_run migrated (\<lambda>_. load w (opt_load c))"
    define finalized where "finalized = then_run loaded (\<lambda>_. finalizing w (opt_dry_run c))"
    define checked where
      "checked = then_run finalized (\<lambda>_. check w (maxSatisfying (map version migrations)))"
    have 1: "P (fst connected)" unfolding connected_def by (rule P_connect [OF assms(1)])
    have 2: "P (fst initialized)"
      unfolding initialized_def by (rule P_then_run [OF sp 1 P_initialize [OF assms(1)]])
    have "P (fst (then_run initialized (\<lambda>_. reset w)))"
      by (rule P_then_run [OF sp 2 P_reset [OF assms(1)]])
    then have 3: "P (fst was_reset)" using 2 by (simp add: was_reset_def)
    have "P (fst (then_run was_reset (\<lambda>_. migrate w migrations)))"
      by (rule P_then_run [OF sp 3 P_migrate [OF assms(1)]])
    then have 4: "P (fst migrated)" using 3 by (simp add: migrated_def)
    have 5: "P (fst loaded)"
      unfolding loaded_def by (rule P_then_run [OF sp 4 P_load [OF assms(1)]])
    have 6: "P (fst finalized)"
      unfolding finalized_def by (rule P_then_run [OF sp 5 P_finalizing [OF assms(1,3)]])
    have 7: "P (fst checked)"
      unfolding checked_def by (rule P_then_run [OF sp 6 P_check [OF assms(1)]])
    have "P (fst (fin checked [Callback None]))"
      by (rule P_fin [OF sp 7 assms(2)])
    moreover have "semigrate w (Some c) d = fin checked [Callback None]"
      by (simp add: semigrate_def dir_def [symmetric] Inr Let_def checked_def finalized_def
          loaded_def migrated_def was_reset_def initialized_def connected_def)
    ultimately show ?thesis by simp
  qed
qed

lemma semigrate_None: "semigrate w None d = ([], Thrown TypeError, d)"
  by (simp add: semigrate_def)

section \<open>Traces: statements in flight, events that never occur\<close>

lemma in_flight_append: "in_flight out (a @ b) = in_flight (in_flight out a) b"
  by (induction out a rule: in_flight.induct) simp_all

lemma overlaps_append: "overlaps out (a @ b) = overlaps out a @ overlaps (in_flight out a) b"
  by (induction out a rule: overlaps.induct) simp_all

lemma calm_append: "calm a \<Longrightarrow> calm b \<Longrightarrow> calm (a @ b)"
  by (simp add: calm_def in_flight_append overlaps_append)

lemma trace_property_calm: "trace_property calm"
  by (simp add: trace_property_def step_property_def calm_append)
     (simp add: calm_def allowed_overlap_def)



lemma trace_property_without:
  assumes "\<And>m. ev \<noteq> Say m" "\<And>file. ev \<noteq> Invoke file" "\<And>s err. ev \<noteq> Completed s err"
    and "\<And>s. s \<noteq> COMMIT \<Longrightarrow> ev \<noteq> Issue s"
  shows "trace_property (\<lambda>tr. ev \<notin> set tr)"
proof -
  have "ev \<noteq> Issue s" if "sent_alone s" for s
    using assms(4) [of s] that by (cases "s = COMMIT") simp_all
  moreover have "ev \<noteq> Issue (SCRIPT body)" "ev \<noteq> Issue CREATE_SCHEMA" "ev \<noteq> Issue CREATE_TABLE"
    "ev \<noteq> Issue ROLLBACK" "ev \<noteq> Issue BEGIN" for body
    using assms(4) by simp_all
  ultimately show ?thesis
    using assms(1-3) by (simp add: trace_property_def step_property_def)
qed

section \<open>Units: what \<^verbatim>\<open>run\<close> and \<^verbatim>\<open>resume\<close> leave in the trace\<close>

lemma started_append: "started (a @ b) = started a @ started b"
  by (induction a rule: started.induct) simp_all

lemma recorded_append: "recorded (a @ b) = recorded a @ recorded b"
  by (induction a rule: recorded.induct) simp_all

lemma done_marks_append: "done_marks (a @ b) = done_marks a + done_marks b"
  by (induction a) (simp_all add: done_marks_def)

lemma step_property_unit:
  "step_property (\<lambda>tr. started tr = [] \<and> recorded tr = [] \<and> (\<forall>v. Issue (INSERT_VERSION v) \<notin> set tr))"
  by (simp add: step_property_def started_append recorded_append)

lemma steps_quiet:
  "started (fst (steps w m d)) = []" "recorded (fst (steps w m d)) = []"
  "Issue (INSERT_VERSION v) \<notin> set (fst (steps w m d))"
  using P_steps [OF step_property_unit, of w m d] by simp_all

lemma run_unfold:
  "run w m d =
     (case steps w m d of
        (tr, Fulfilled x, d1) \<Rightarrow>
          (case client_query w (INSERT_VERSION (version m)) d1 of
             (Inl err, d2) \<Rightarrow>
               (tr @ [Issue (INSERT_VERSION (version m)), Completed (INSERT_VERSION (version m)) (Some err)],
                Rejected err, d2)
           | (Inr rows, d2) \<Rightarrow>
               (tr @ [Issue (INSERT_VERSION (version m)), Completed (INSERT_VERSION (version m)) None],
                Fulfilled (), d2))
      | (tr, Rejected e, d1) \<Rightarrow> (tr, Rejected e, d1)
      | (tr, Thrown e, d1) \<Rightarrow> (tr, Thrown e, d1)
      | (tr, Uncaught e, d1) \<Rightarrow> (tr, Uncaught e, d1))"
  by (simp add: run_def then_run_def query_def split: prod.split result.split sum.split)


lemma run_trace:
  "fst (run w m d) =
     fst (steps w m d) @
     (if fst (snd (steps w m d)) = Fulfilled ()
      then [Issue (INSERT_VERSION (version m)),
            Completed (INSERT_VERSION (version m))
              (case fst (client_query w (INSERT_VERSION (version m)) (snd (snd (steps w m d)))) of
                 Inl err \<Rightarrow> Some err | Inr rows \<Rightarrow> None)]
      else [])"
  by (simp add: run_unfold split: prod.split result.split sum.split)

lemma run_started: "started (fst (run w m d)) = []"
  by (simp add: run_trace started_append steps_quiet)

lemma run_recorded:
  "recorded (fst (run w m d)) = (if fst (snd (run w m d)) = Fulfilled () then [version m] else [])"
  using steps_quiet(2) [of w m d]
  by (auto simp: run_unfold recorded_append split: prod.split result.split sum.split)

lemma header_started: "started (migration_header m) = [version m]"
  by (simp add: migration_header_def)

lemma header_recorded: "recorded (migration_header m) = []"
  by (simp add: migration_header_def)

lemma resume_failing_head:
  assumes "run w m d = (tr, r, d')" "r \<noteq> Fulfilled ()"
  shows "resume w (m # ms) d =
           (migration_header m @ tr, (case r of Thrown e \<Rightarrow> Uncaught e | _ \<Rightarrow> r), d')"
  using assms by (cases r) (simp_all add: after_def)

lemma resume_prefix:
  assumes "resume w pre d = (tr1, Fulfilled (), d1)"
  shows "resume w (pre @ ms) d = after tr1 (resume w ms d1)"
  using assms
proof (induction pre arbitrary: d tr1)
  case Nil
  then show ?case by (cases "resume w ms d1") (simp add: after_def)
next
  case (Cons m pre)
  obtain tr r d' where run: "run w m d = (tr, r, d')" by (cases "run w m d")
  show ?case
  proof (cases r)
    case (Fulfilled x)
    obtain tr' r' d'' where rest: "resume w pre d' = (tr', r', d'')" by (cases "resume w pre d'")
    from Cons.prems run Fulfilled rest
    have r': "r' = Fulfilled ()" and d'': "d'' = d1"
      and tr1: "tr1 = migration_header m @ tr @ (if \<not> multiple m then [Say DoneMark] else []) @ tr'"
      by (simp_all add: after_def)
    have "resume w (pre @ ms) d' = after tr' (resume w ms d1)"
      using Cons.IH [of d' tr'] rest r' d'' by simp
    then show ?thesis
      using run Fulfilled tr1 by (cases "resume w ms d1") (simp add: after_def)
  qed (use Cons.prems run in \<open>simp_all add: after_def\<close>)
qed

lemma resume_fulfilled:
  assumes "resume w ms d = (tr, Fulfilled (), d')"
  shows "started tr = map version ms \<and> recorded tr = map version ms"
  using assms
proof (induction ms arbitrary: d tr d')
  case Nil
  then show ?case by simp
next
  case (Cons m ms)
  obtain tr0 r d0 where run: "run w m d = (tr0, r, d0)" by (cases "run w m d")
  show ?case
  proof (cases r)
    case (Fulfilled x)
    obtain tr' r' d'' where rest: "resume w ms d0 = (tr', r', d'')" by (cases "resume w ms d0")
    from Cons.prems run Fulfilled rest
    have r': "r' = Fulfilled ()"
      and tr: "tr = migration_header m @ tr0 @ (if \<not> multiple m then [Say DoneMark] else []) @ tr'"
      by (simp_all add: after_def)
    have ih: "started tr' = map version ms \<and> recorded tr' = map version ms"
      using Cons.IH [of d0 tr' d''] rest r' by simp
    have s0: "started tr0 = []" using run_started [of w m d] run by simp
    have r0: "recorded tr0 = [version m]" using run_recorded [of w m d] run Fulfilled by simp
    show ?thesis
      using ih s0 r0
      by (simp add: tr started_append recorded_append header_started header_recorded)
  qed (use Cons.prems run in \<open>simp_all add: after_def\<close>)
qed

lemma foldl_then_stuck:
  assumes "fst (snd acc) \<noteq> Fulfilled ()"
  shows "foldl (\<lambda>last x. then_run last (\<lambda>_. func x)) acc xs = acc"
proof (induction xs)
  case Nil
  show ?case by simp
next
  case (Cons x xs)
  have "then_run acc (\<lambda>_. func x) = acc"
    using assms by (cases acc; cases "fst (snd acc)") (simp_all add: then_run_def)
  then show ?case using Cons.IH by simp
qed

lemma qMapSerial_done_marks:
  fixes acc :: "(unit, 'db) run"
  assumes "\<And>x d. fst (snd (func x d)) = Fulfilled () \<Longrightarrow> done_marks (fst (func x d)) = 1"
    and "fst (snd (foldl (\<lambda>last x. then_run last (\<lambda>_. func x)) acc xs)) = Fulfilled ()"
  shows "done_marks (fst (foldl (\<lambda>last x. then_run last (\<lambda>_. func x)) acc xs))
           = done_marks (fst acc) + length xs"
  using assms(2)
proof (induction xs arbitrary: acc)
  case Nil
  then show ?case by simp
next
  case (Cons x xs)
  let ?next = "then_run acc (\<lambda>_. func x)"
  have final: "fst (snd (foldl (\<lambda>last x. then_run last (\<lambda>_. func x)) ?next xs)) = Fulfilled ()"
    using Cons.prems by simp
  have next_ok: "fst (snd ?next) = Fulfilled ()"
  proof (rule ccontr)
    assume "fst (snd ?next) \<noteq> Fulfilled ()"
    then have "foldl (\<lambda>last x. then_run last (\<lambda>_. func x)) ?next xs = ?next"
      by (rule foldl_then_stuck)
    with final \<open>fst (snd ?next) \<noteq> Fulfilled ()\<close> show False by simp
  qed
  obtain tr r d where acc: "acc = (tr, r, d)" by (cases acc)
  obtain tr' r' d' where f: "func x d = (tr', r', d')" by (cases "func x d")
  have r: "r = Fulfilled ()" using next_ok acc by (cases r) (simp_all add: then_run_def)
  have r': "r' = Fulfilled ()" using next_ok acc r f by (cases r') (simp_all add: then_run_def)
  have "done_marks tr' = 1" using assms(1) [of x d] f r' by simp
  moreover have "fst ?next = tr @ tr'" using acc r f r' by (simp add: then_run_def)
  ultimately have "done_marks (fst ?next) = done_marks (fst acc) + 1"
    using acc by (simp add: done_marks_append)
  then show ?case using Cons.IH [OF final] by simp
qed

lemma runStep_done_marks:
  assumes "fst (snd (runStep w file True d)) = Fulfilled ()"
  shows "done_marks (fst (runStep w file True d)) = 1"
  using assms
  by (auto simp: runStep_def Let_def then_run_def query_def step_finished_def after_def
      done_marks_def split: sum.splits prod.splits script_end.splits if_splits)

lemma group_done_marks:
  assumes "multiple m" "fst (snd (steps w m d)) = Fulfilled ()"
  shows "done_marks (fst (steps w m d)) = length (files m)"
proof -
  have "done_marks (fst (qMapSerial (files m) (\<lambda>file. runStep w file True) d))
          = done_marks (fst (([], Fulfilled (), d) :: (unit, 'a) run)) + length (files m)"
    unfolding qMapSerial_def
    by (rule qMapSerial_done_marks)
       (use assms in \<open>simp_all add: runStep_done_marks steps_def qMapSerial_def\<close>)
  then show ?thesis using assms(1) by (simp add: steps_def done_marks_def)
qed

lemma detect_started: "started (fst (detect w quiet d)) = []"
  by (simp add: detect_def then_run_def query_def
      split: prod.split sum.split option.split result.split)

lemma filter_throwing_total: "filter_throwing (\<lambda>m. Inr (p m)) ms = Inr (filter p ms)"
  by (induction ms) simp_all

lemma filter_throwing_pending:
  "filter_throwing (is_pending (case detected of None \<Rightarrow> Null | Some v \<Rightarrow> Str v)) catalog
     = Inr (spec_pending detected catalog)"
proof (cases detected)
  case None
  have "is_pending Null = (\<lambda>m. Inr True)" by (rule ext) (simp add: is_pending_def)
  then show ?thesis by (simp add: None spec_pending_def filter_throwing_total)
next
  case (Some v)
  have "is_pending (Str v) = (\<lambda>m. Inr (semver_gt (version m) v))"
    by (rule ext) (simp add: is_pending_def)
  then show ?thesis by (simp add: Some spec_pending_def filter_throwing_total)
qed

lemma versionPromise_detected:
  assumes "detect w False d = (tr0, Fulfilled detected, d0)"
  shows "versionPromise w d = (tr0, Fulfilled (case detected of None \<Rightarrow> Null | Some v \<Rightarrow> Str v), d0)"
  using assms by (cases detected) (simp_all add: versionPromise_def)

lemma resume_not_Thrown: "fst (snd (resume w ms d)) \<noteq> Thrown e"
proof (induction ms arbitrary: d)
  case Nil
  show ?case by simp
next
  case (Cons m ms)
  obtain tr r d' where run: "run w m d = (tr, r, d')" by (cases "run w m d")
  show ?case using Cons.IH [of d'] by (cases r) (simp_all add: run end_after)
qed

lemma then_run_not_Thrown:
  assumes "\<And>e. fst (snd (f x d)) \<noteq> Thrown e"
  shows "then_run (tr, Fulfilled x, d) f = after tr (f x d)"
  using assms by (cases "f x d"; cases "fst (snd (f x d))") (simp_all add: then_run_def after_def)

lemma resume_started_prefix:
  "\<exists>rest. map version ms = started (fst (resume w ms d)) @ rest"
proof (induction ms arbitrary: d)
  case Nil
  show ?case by simp
next
  case (Cons m ms)
  obtain tr r d' where run: "run w m d = (tr, r, d')" by (cases "run w m d")
  have tr: "started tr = []" using run_started [of w m d] run by simp
  show ?case
  proof (cases r)
    case (Fulfilled x)
    obtain rest where "map version ms = started (fst (resume w ms d')) @ rest"
      using Cons.IH [of d'] by blast
    then show ?thesis
      by (simp add: run Fulfilled fst_after started_append header_started tr)
  qed (simp_all add: run fst_after started_append header_started tr)
qed

lemma resume_fulfilled_started:
  assumes "fst (snd (resume w ms d)) = Fulfilled ()"
  shows "started (fst (resume w ms d)) = map version ms"
proof -
  obtain tr r d' where r: "resume w ms d = (tr, r, d')" by (cases "resume w ms d")
  then show ?thesis using assms resume_fulfilled [of w ms d tr d'] by simp
qed

lemma resume_failed:
  assumes "fst (snd (resume w ms d)) \<noteq> Fulfilled ()"
  shows "started (fst (resume w ms d)) \<noteq> [] \<and>
         recorded (fst (resume w ms d)) = butlast (started (fst (resume w ms d)))"
  using assms
proof (induction ms arbitrary: d)
  case Nil
  then show ?case by simp
next
  case (Cons m ms)
  obtain tr r d' where run: "run w m d = (tr, r, d')" by (cases "run w m d")
  have s0: "started tr = []" using run_started [of w m d] run by simp
  have r0: "recorded tr = (if r = Fulfilled () then [version m] else [])"
    using run_recorded [of w m d] run by simp
  show ?case
  proof (cases r)
    case (Fulfilled x)
    have "fst (snd (resume w ms d')) \<noteq> Fulfilled ()"
      using Cons.prems run Fulfilled by (simp add: end_after)
    then have ih: "started (fst (resume w ms d')) \<noteq> []"
      "recorded (fst (resume w ms d')) = butlast (started (fst (resume w ms d')))"
      using Cons.IH [of d'] by simp_all
    show ?thesis
      using ih s0 r0 Fulfilled
      by (simp add: run fst_after started_append recorded_append header_started header_recorded)
  qed (use s0 r0 in \<open>simp_all add: run fst_after started_append recorded_append
        header_started header_recorded\<close>)
qed

lemma qMapSerial_Nil: "qMapSerial [] func d = ([], Fulfilled (), d)"
  by (simp add: qMapSerial_def)

lemma foldl_then_after:
  "foldl (\<lambda>last x. then_run last (\<lambda>_. func x)) (tr, Fulfilled (), d) xs
     = after tr (foldl (\<lambda>last x. then_run last (\<lambda>_. func x)) ([], Fulfilled (), d) xs)"
proof (induction xs arbitrary: tr d)
  case Nil
  show ?case by (simp add: after_def)
next
  case (Cons x xs)
  obtain tr' r' d' where f: "func x d = (tr', r', d')" by (cases "func x d")
  show ?case
  proof (cases "r' = Fulfilled ()")
    case True
    have 1: "then_run (tr, Fulfilled (), d) (\<lambda>_. func x) = (tr @ tr', Fulfilled (), d')"
      and 2: "then_run (([], Fulfilled (), d) :: (unit, 'a) run) (\<lambda>_. func x) = (tr', Fulfilled (), d')"
      using f True by (simp_all add: then_run_def)
    show ?thesis
      unfolding foldl_Cons 1 2
      by (subst Cons.IH [of "tr @ tr'" d'], subst Cons.IH [of tr' d'])
         (cases "foldl (\<lambda>last x. then_run last (\<lambda>_. func x)) ([], Fulfilled (), d') xs",
          simp add: after_def)
  next
    case False
    define r'' where "r'' = (case r' of Thrown e \<Rightarrow> Rejected e | _ \<Rightarrow> r')"
    have ne: "r'' \<noteq> Fulfilled ()" using False by (cases r') (simp_all add: r''_def)
    have 1: "then_run (tr, Fulfilled (), d) (\<lambda>_. func x) = (tr @ tr', r'', d')"
      and 2: "then_run (([], Fulfilled (), d) :: (unit, 'a) run) (\<lambda>_. func x) = (tr', r'', d')"
      using f by (cases r'; simp add: then_run_def r''_def)+
    have s1: "foldl (\<lambda>last x. then_run last (\<lambda>_. func x)) (tr @ tr', r'', d') xs = (tr @ tr', r'', d')"
      by (rule foldl_then_stuck) (simp add: ne)
    have s2: "foldl (\<lambda>last x. then_run last (\<lambda>_. func x)) (tr', r'', d') xs = (tr', r'', d')"
      by (rule foldl_then_stuck) (simp add: ne)
    show ?thesis
      unfolding foldl_Cons 1 2 s1 s2 by (simp add: after_def)
  qed
qed

lemma qMapSerial_Cons:
  "qMapSerial (x # xs) func d =
     (case func x d of
        (tr, Fulfilled u, d') \<Rightarrow> after tr (qMapSerial xs func d')
      | (tr, Rejected e, d') \<Rightarrow> (tr, Rejected e, d')
      | (tr, Thrown e, d') \<Rightarrow> (tr, Rejected e, d')
      | (tr, Uncaught e, d') \<Rightarrow> (tr, Uncaught e, d'))"
proof -
  obtain tr r d' where f: "func x d = (tr, r, d')" by (cases "func x d")
  show ?thesis
  proof (cases r)
    case (Fulfilled u)
    then have "then_run (([], Fulfilled (), d) :: (unit, 'a) run) (\<lambda>_. func x) = (tr, Fulfilled (), d')"
      using f by (simp add: then_run_def)
    then show ?thesis
      using f Fulfilled by (simp add: qMapSerial_def foldl_then_after [of func tr d' xs])
  next
    case (Rejected e)
    then have "then_run (([], Fulfilled (), d) :: (unit, 'a) run) (\<lambda>_. func x) = (tr, Rejected e, d')"
      using f by (simp add: then_run_def)
    then show ?thesis using f Rejected by (simp add: qMapSerial_def foldl_then_stuck)
  next
    case (Thrown e)
    then have "then_run (([], Fulfilled (), d) :: (unit, 'a) run) (\<lambda>_. func x) = (tr, Rejected e, d')"
      using f by (simp add: then_run_def)
    then show ?thesis using f Thrown by (simp add: qMapSerial_def foldl_then_stuck)
  next
    case (Uncaught e)
    then have "then_run (([], Fulfilled (), d) :: (unit, 'a) run) (\<lambda>_. func x) = (tr, Uncaught e, d')"
      using f by (simp add: then_run_def)
    then show ?thesis using f Uncaught by (simp add: qMapSerial_def foldl_then_stuck)
  qed
qed

lemma runStep_answer:
  "(fst (snd (runStep w file verbose d)) = Fulfilled ()) = fst (step_answer w file d)"
  "fst (snd (runStep w file verbose d)) = Fulfilled ()
     \<Longrightarrow> snd (snd (runStep w file verbose d)) = snd (step_answer w file d)"
  "fst (snd (runStep w file verbose d)) = Fulfilled ()
     \<Longrightarrow> Completed s (Some e) \<notin> set (fst (runStep w file verbose d))"
  by (auto simp: runStep_def step_answer_def Let_def then_run_def query_def step_finished_def
      after_def split: sum.splits prod.splits script_end.splits if_splits)


lemma group_answered:
  "(fst (snd (qMapSerial fs (\<lambda>file. runStep w file True) d)) = Fulfilled ()) = all_answered w fs d"
proof (induction fs arbitrary: d)
  case Nil
  show ?case by (simp add: qMapSerial_Nil)
next
  case (Cons fl fs)
  obtain tr r d' where f: "runStep w fl True d = (tr, r, d')" by (cases "runStep w fl True d")
  obtain ok d'' where a: "step_answer w fl d = (ok, d'')" by (cases "step_answer w fl d")
  have ok: "(r = Fulfilled ()) = ok" using runStep_answer(1) [of w fl True d] f a by simp
  show ?case
  proof (cases r)
    case (Fulfilled u)
    then have "d' = d''" using runStep_answer(2) [of w fl True d] f a by simp
    then show ?thesis
      using Fulfilled ok f a Cons.IH [of d'] by (simp add: qMapSerial_Cons end_after)
  qed (use ok f a in \<open>simp_all add: qMapSerial_Cons\<close>)
qed

lemma group_no_failed_answer:
  assumes "fst (snd (qMapSerial fs (\<lambda>file. runStep w file True) d)) = Fulfilled ()"
  shows "Completed s (Some e) \<notin> set (fst (qMapSerial fs (\<lambda>file. runStep w file True) d))"
  using assms
proof (induction fs arbitrary: d)
  case Nil
  show ?case by (simp add: qMapSerial_Nil)
next
  case (Cons fl fs)
  obtain tr r d' where f: "runStep w fl True d = (tr, r, d')" by (cases "runStep w fl True d")
  show ?case
  proof (cases r)
    case (Fulfilled u)
    have "Completed s (Some e) \<notin> set tr"
      using runStep_answer(3) [of w fl True d s e] f Fulfilled by simp
    moreover have "Completed s (Some e) \<notin> set (fst (qMapSerial fs (\<lambda>file. runStep w file True) d'))"
      using Cons.prems Cons.IH [of d'] f Fulfilled by (simp add: qMapSerial_Cons end_after)
    ultimately show ?thesis using f Fulfilled by (simp add: qMapSerial_Cons fst_after)
  qed (use Cons.prems f in \<open>simp_all add: qMapSerial_Cons\<close>)
qed

lemma steps_answered:
  "(fst (snd (steps w m d)) = Fulfilled ()) = all_answered w (step_files m) d"
proof (cases "multiple m")
  case True
  then show ?thesis by (simp add: steps_def step_files_def group_answered)
next
  case False
  obtain ok d' where a: "step_answer w (path m) d = (ok, d')" by (cases "step_answer w (path m) d")
  show ?thesis
    using False runStep_answer(1) [of w "path m" False d] a by (simp add: steps_def step_files_def)
qed

lemma steps_no_failed_answer:
  assumes "fst (snd (steps w m d)) = Fulfilled ()"
  shows "Completed s (Some e) \<notin> set (fst (steps w m d))"
  using assms group_no_failed_answer [of "files m" w d s e] runStep_answer(3) [of w "path m" False d s e]
  by (cases "multiple m") (simp_all add: steps_def)

lemma resume_due_runs:
  "fst (resume w ms d) = concat (map unit_events (due_runs w ms d))"
proof (induction ms arbitrary: d)
  case Nil
  show ?case by simp
next
  case (Cons m ms)
  obtain tr r d' where run: "run w m d = (tr, r, d')" by (cases "run w m d")
  show ?case
    using Cons.IH [of d'] by (cases r) (simp_all add: run fst_after unit_events_def)
qed

lemma due_runs_prefix:
  "map fst (due_runs w ms d) = take (length (due_runs w ms d)) ms"
proof (induction ms arbitrary: d)
  case Nil
  show ?case by simp
next
  case (Cons m ms)
  obtain tr r d' where run: "run w m d = (tr, r, d')" by (cases "run w m d")
  show ?case using Cons.IH [of d'] by (simp add: run)
qed

lemma due_runs_nonempty: "ms \<noteq> [] \<Longrightarrow> due_runs w ms d \<noteq> []"
  by (cases ms; cases "run w (hd ms) d") simp_all

lemma due_runs_butlast:
  "x \<in> set (butlast (due_runs w ms d)) \<Longrightarrow> snd (snd x) = Fulfilled ()"
proof (induction ms arbitrary: d)
  case Nil
  then show ?case by simp
next
  case (Cons m ms)
  obtain tr r d' where run: "run w m d = (tr, r, d')" by (cases "run w m d")
  show ?case
    using Cons.prems Cons.IH [of d'] by (auto simp: run split: if_splits)
qed

lemma due_runs_short:
  "length (due_runs w ms d) < length ms
     \<Longrightarrow> due_runs w ms d \<noteq> [] \<and> snd (snd (last (due_runs w ms d))) \<noteq> Fulfilled ()"
proof (induction ms arbitrary: d)
  case Nil
  then show ?case by simp
next
  case (Cons m ms)
  obtain tr r d' where run: "run w m d = (tr, r, d')" by (cases "run w m d")
  show ?case
    using Cons.prems Cons.IH [of d'] by (auto simp: run split: if_splits)
qed

lemma due_runs_are_runs:
  "x \<in> set (due_runs w ms d)
     \<Longrightarrow> \<exists>d'. fst (snd x) = fst (run w (fst x) d') \<and> snd (snd x) = fst (snd (run w (fst x) d'))"
proof (induction ms arbitrary: d)
  case Nil
  then show ?case by simp
next
  case (Cons m ms)
  obtain tr r d' where run: "run w m d = (tr, r, d')" by (cases "run w m d")
  have here: "\<exists>d'. tr = fst (run w m d') \<and> r = fst (snd (run w m d'))"
    using run by (intro exI [of _ d]) simp
  show ?case
    using Cons.prems Cons.IH [of d'] here by (auto simp: run split: if_splits)
qed

lemma resume_started_due:
  "started (fst (resume w ms d)) = map (\<lambda>x. version (fst x)) (due_runs w ms d)"
proof (induction ms arbitrary: d)
  case Nil
  show ?case by simp
next
  case (Cons m ms)
  obtain tr r d' where run: "run w m d = (tr, r, d')" by (cases "run w m d")
  have tr: "started tr = []" using run_started [of w m d] run by simp
  show ?case
    using Cons.IH [of d'] tr
    by (cases r) (simp_all add: run fst_after started_append header_started)
qed

lemma resume_fulfilled_due:
  "(fst (snd (resume w ms d)) = Fulfilled ())
     = (length (due_runs w ms d) = length ms \<and> list_all (\<lambda>x. snd (snd x) = Fulfilled ()) (due_runs w ms d))"
proof (induction ms arbitrary: d)
  case Nil
  show ?case by simp
next
  case (Cons m ms)
  obtain tr r d' where run: "run w m d = (tr, r, d')" by (cases "run w m d")
  show ?case
    using Cons.IH [of d'] by (cases r) (simp_all add: run end_after)
qed

lemma run_fulfilled:
  assumes "fst (snd (run w m d)) = Fulfilled ()"
  shows "fst (snd (steps w m d)) = Fulfilled ()"
    and "fst (run w m d) =
           fst (steps w m d) @
           [Issue (INSERT_VERSION (version m)), Completed (INSERT_VERSION (version m)) None]"
  using assms
  by (auto simp add: run_unfold split: prod.splits result.splits sum.splits)

lemma run_no_failed_answer:
  assumes "fst (snd (run w m d)) = Fulfilled ()"
  shows "Completed s (Some e) \<notin> set (fst (run w m d))"
  using steps_no_failed_answer [OF run_fulfilled(1) [OF assms], of s e]
  by (simp add: run_fulfilled(2) [OF assms])

section \<open>The catalog: sorting and parsing\<close>

lemma semver_compare_trans:
  "semver_compare a b \<le> 0 \<Longrightarrow> semver_compare b c \<le> 0 \<Longrightarrow> semver_compare a c \<le> 0"
  by (simp add: semver_compare_cases split: if_splits)

lemma semver_compare_total: "semver_compare a b \<le> 0 \<or> semver_compare b a \<le> 0"
  by (simp add: semver_compare_cases)

lemma set_insert_by: "set (insert_by cmp x ys) = insert x (set ys)"
  by (induction ys) auto

lemma set_sort_by: "set (sort_by cmp xs) = set xs"
  by (induction xs) (simp_all add: sort_by_def set_insert_by)

lemma sorted_insert_by:
  assumes "\<And>a b c. cmp a b \<le> 0 \<Longrightarrow> cmp b c \<le> 0 \<Longrightarrow> cmp a c \<le> 0"
    and "\<And>a b. cmp a b \<le> 0 \<or> cmp b a \<le> 0"
    and "sorted_wrt (\<lambda>a b. cmp a b \<le> 0) ys"
  shows "sorted_wrt (\<lambda>a b. cmp a b \<le> 0) (insert_by cmp x ys)"
  using assms(3)
proof (induction ys)
  case Nil
  show ?case by simp
next
  case (Cons y ys)
  show ?case
  proof (cases "cmp x y \<le> 0")
    case True
    then have "\<forall>z \<in> set ys. cmp x z \<le> 0" using Cons.prems assms(1) by auto
    then show ?thesis using True Cons.prems by simp
  next
    case False
    then have "cmp y x \<le> 0" using assms(2) [of x y] by simp
    then show ?thesis using False Cons by (simp add: set_insert_by)
  qed
qed

lemma sorted_sort_by:
  assumes "\<And>a b c. cmp a b \<le> 0 \<Longrightarrow> cmp b c \<le> 0 \<Longrightarrow> cmp a c \<le> 0"
    and "\<And>a b. cmp a b \<le> 0 \<or> cmp b a \<le> 0"
  shows "sorted_wrt (\<lambda>a b. cmp a b \<le> 0) (sort_by cmp xs)"
proof (induction xs)
  case Nil
  show ?case by (simp add: sort_by_def)
next
  case (Cons x xs)
  have "sorted_wrt (\<lambda>a b. cmp a b \<le> 0) (insert_by cmp x (sort_by cmp xs))"
    using assms Cons.IH by (rule sorted_insert_by)
  then show ?case by (simp add: sort_by_def)
qed

lemma set_compact: "set (compact xs) = {x. Some x \<in> set xs}"
  by (induction xs rule: compact.induct) auto

lemma parseMigrationSpec_Some:
  assumes "parseMigrationSpec w spec = Inr (Some m)"
  shows "path m = spec \<and>
         (\<exists>v. matchSpec (basename spec) = Some (v, title m) \<and> semver_valid w v = Some (version m))"
  using assms
  by (auto simp: parseMigrationSpec_def split: option.splits prod.splits sum.splits if_splits)

lemma mapSpecs_elements:
  assumes "mapSpecs w specs = Inr ms" "Some m \<in> set ms"
  shows "\<exists>spec \<in> set specs. parseMigrationSpec w spec = Inr (Some m)"
  using assms
proof (induction specs arbitrary: ms)
  case Nil
  then show ?case by simp
next
  case (Cons spec specs)
  then show ?case by (auto split: sum.splits)
qed

lemma basename_join: "basename (directory @ [name]) = name"
  by (simp add: basename_def)

lemma length_insert_by: "length (insert_by cmp x ys) = Suc (length ys)"
  by (induction ys) simp_all

lemma length_sort_by: "length (sort_by cmp xs) = length xs"
  by (induction xs) (simp_all add: sort_by_def length_insert_by)

lemma list_sorted:
  assumes "list w directory = Inr ms"
  shows "sorted_wrt (\<lambda>a b. semver_compare (version a) (version b) \<le> 0) ms"
proof -
  obtain xs where "ms = sort_by (\<lambda>m1 m2. semver_compare (version m1) (version m2)) xs"
    using assms by (auto simp: list_def split: sum.splits)
  then show ?thesis
    using sorted_sort_by [of "\<lambda>m1 m2. semver_compare (version m1) (version m2)" xs]
      semver_compare_trans semver_compare_total by blast
qed

lemma parseMigrationSpec_entry:
  assumes "parseMigrationSpec w spec = Inr r"
  shows "(r \<noteq> None) = is_migration_entry w spec"
  using assms
  by (auto simp: parseMigrationSpec_def is_migration_entry_def
      split: option.splits prod.splits sum.splits if_splits)

lemma mapSpecs_paths:
  assumes "mapSpecs w specs = Inr res"
  shows "map path (compact res) = filter (is_migration_entry w) specs"
  using assms
proof (induction specs arbitrary: res)
  case Nil
  then show ?case by simp
next
  case (Cons spec specs)
  obtain r rest where r: "parseMigrationSpec w spec = Inr r" "mapSpecs w specs = Inr rest"
    "res = r # rest"
    using Cons.prems by (auto split: sum.splits)
  have ih: "map path (compact rest) = filter (is_migration_entry w) specs"
    using Cons.IH [OF r(2)] .
  show ?case
  proof (cases r)
    case None
    then show ?thesis using parseMigrationSpec_entry [OF r(1)] ih r(3) by simp
  next
    case (Some m)
    then have "path m = spec" using parseMigrationSpec_Some [of w spec m] r(1) by simp
    then show ?thesis using Some parseMigrationSpec_entry [OF r(1)] ih r(3) by simp
  qed
qed

lemma list_entries:
  assumes "readdirSync w (if directory = [] then [''.''] else directory) = Inr names"
    and "list w directory = Inr ms"
  shows "path ` set ms = set (filter (is_migration_entry w) (map (\<lambda>name. directory @ [name]) names))"
    and "length ms = length (filter (is_migration_entry w) (map (\<lambda>name. directory @ [name]) names))"
proof -
  obtain res where res: "mapSpecs w (map (\<lambda>name. directory @ [name]) names) = Inr res"
    and ms: "ms = sort_by (\<lambda>m1 m2. semver_compare (version m1) (version m2)) (compact res)"
    using assms by (auto simp: list_def split: sum.splits)
  have "path ` set ms = set (map path (compact res))"
    by (simp add: ms set_sort_by)
  then show "path ` set ms = set (filter (is_migration_entry w) (map (\<lambda>name. directory @ [name]) names))"
    by (simp only: mapSpecs_paths [OF res])
  have "length ms = length (map path (compact res))"
    by (simp add: ms length_sort_by)
  then show "length ms = length (filter (is_migration_entry w) (map (\<lambda>name. directory @ [name]) names))"
    by (simp only: mapSpecs_paths [OF res])
qed

section \<open>What a run leaves of the database\<close>

























section \<open>The connection and the pool\<close>

text \<open>
  C1 (as the code has it). \<^verbatim>\<open>connect\<close> keeps the function \<^verbatim>\<open>done\<close> of the pool in the
  \<^verbatim>\<open>Connection\<close>, and nothing calls it: on every path of every run, with or without a
  configuration, the connection is never given back to the pool, neither before nor after
  the completion callback.
\<close>

theorem connection_never_released:
  "Release \<notin> set (fst (semigrate w config d))"
proof (cases config)
  case None
  then show ?thesis by (simp add: semigrate_None)
next
  case (Some c)
  have "trace_property (\<lambda>tr. Release \<notin> set tr)"
    by (rule trace_property_without) simp_all
  then have "Release \<notin> set (fst (semigrate w (Some c) d))"
    by (rule P_semigrate) simp_all
  then show ?thesis by (simp add: Some)
qed

text \<open>
  C1 (as the claim states it) fails: in the run that migrates the directory of the README
  on an empty database and succeeds, the callback is the last event and the connection has
  been released zero times, not once.
\<close>

theorem successful_run_releases_zero_times:
  "count_list (fst (semigrate (demo_world False) (Some (demo_config ''db'' False)) empty_db)) Release = 0 \<and>
   last (fst (semigrate (demo_world False) (Some (demo_config ''db'' False)) empty_db)) = Callback None \<and>
   fst (snd (semigrate (demo_world False) (Some (demo_config ''db'' False)) empty_db)) = Fulfilled ()"
  by code_simp

section \<open>Recovery when the version cannot be read\<close>

text \<open>
  C2 (what the code does at an input where detection fails). The select fails, the
  handler of line 266 issues \<^verbatim>\<open>ROLLBACK\<close> and \<^verbatim>\<open>BEGIN\<close>, and the version the filter then
  receives is the array of \<^verbatim>\<open>Q.all\<close>, not \<^verbatim>\<open>null\<close>. With one unit in the catalog,
  \<^verbatim>\<open>semver.gt\<close> throws on that array: \<^verbatim>\<open>migrate\<close> is rejected with a TypeError and starts no
  unit, where the filter on \<^verbatim>\<open>null\<close> keeps the unit.
\<close>

theorem recovery_passes_array_and_migrate_rejects:
  "versionPromise (demo_world True) empty_db
     = ([Issue SELECT_VERSION, Completed SELECT_VERSION (Some (PgError ''relation does not exist'')),
         Issue ROLLBACK, Issue BEGIN, Completed ROLLBACK None, Completed BEGIN None],
        Fulfilled (Arr [[], []]), empty_db) \<and>
   migrate (demo_world True) [single (SemVer 1 0 0) ''1.0.0-a.sql''] empty_db
     = ([Issue SELECT_VERSION, Completed SELECT_VERSION (Some (PgError ''relation does not exist'')),
         Issue ROLLBACK, Issue BEGIN, Completed ROLLBACK None, Completed BEGIN None],
        Rejected TypeError, empty_db) \<and>
   filter_throwing (is_pending Null) [single (SemVer 1 0 0) ''1.0.0-a.sql'']
     = Inr [single (SemVer 1 0 0) ''1.0.0-a.sql'']"
  by code_simp

section \<open>Dry runs\<close>




section \<open>Verification against the catalog's greatest version\<close>

text \<open>
  C4 (as the code has it). For a detected version \<open>v\<close> greater than the target \<open>t\<close>,
  \<^verbatim>\<open>check\<close> succeeds with the warning exactly when \<open>v\<close> is in the caret range of \<open>t\<close>:
  the same major version when that major is not zero, and for major zero the same minor
  version, which must not be zero. Everywhere else it fails as incompatible: the promise of
  \<^verbatim>\<open>check\<close> is rejected with that error.
\<close>

theorem check_newer_caret:
  assumes "semver_gt v t"
    and "detect w True d = (tr, Fulfilled (Some v), d')"
  shows "check_verdict (Some t) (Some v) =
           (if major v = major t \<and> (major t = 0 \<longrightarrow> minor v = minor t \<and> minor t \<noteq> 0)
            then Inr NewerCompatible else Inl Incompatible) \<and>
         check w (Some t) d =
           (if major v = major t \<and> (major t = 0 \<longrightarrow> minor v = minor t \<and> minor t \<noteq> 0)
            then (tr @ [Say BlankLine, Say NewerWarning], Fulfilled (), d')
            else (tr @ [Say BlankLine], Rejected Incompatible, d'))"
proof (cases "major v = major t \<and> (major t = 0 \<longrightarrow> minor v = minor t \<and> minor t \<noteq> 0)")
  case True
  then have "check_verdict (Some t) (Some v) = Inr NewerCompatible"
    using check_verdict_newer [OF assms(1)] by simp
  then show ?thesis using True assms(2) by (simp add: check_def then_run_def)
next
  case False
  then have "check_verdict (Some t) (Some v) = Inl Incompatible"
    using check_verdict_newer [OF assms(1)] by simp
  then show ?thesis using False assms(2) by (simp add: check_def then_run_def)
qed

theorem check_newer_caret_witness:
  "semver_gt (SemVer 1 6 0) (SemVer 1 5 0) \<and>
   detect (demo_world False) True ([SemVer 1 6 0], [SemVer 1 6 0])
     = ([Issue SELECT_VERSION, Completed SELECT_VERSION None], Fulfilled (Some (SemVer 1 6 0)),
        ([SemVer 1 6 0], [SemVer 1 6 0])) \<and>
   check_verdict (Some (SemVer 1 5 0)) (Some (SemVer 1 6 0)) = Inr NewerCompatible \<and>
   check (demo_world False) (Some (SemVer 1 5 0)) ([SemVer 1 6 0], [SemVer 1 6 0])
     = ([Issue SELECT_VERSION, Completed SELECT_VERSION None, Say BlankLine, Say NewerWarning],
        Fulfilled (), ([SemVer 1 6 0], [SemVer 1 6 0]))"
proof -
  have g: "semver_gt (SemVer 1 6 0) (SemVer 1 5 0)"
    by (simp add: semver_gt_def semver_compare_cases)
  have h: "detect (demo_world False) True ([SemVer 1 6 0], [SemVer 1 6 0])
     = ([Issue SELECT_VERSION, Completed SELECT_VERSION None], Fulfilled (Some (SemVer 1 6 0)),
        ([SemVer 1 6 0], [SemVer 1 6 0]))"
    by code_simp
  show ?thesis
    using check_newer_caret [OF g h] g h by simp
qed

text \<open>
  C4 (as the claim states it) fails: with 2.0.0 detected and 1.5.0 the greatest version of
  the catalog, \<^verbatim>\<open>check\<close> throws the incompatibility error; and two versions of major zero
  with different minors are incompatible although the major is the same.
\<close>

theorem check_2_0_0_against_1_5_0_incompatible:
  "semver_gt (SemVer 2 0 0) (SemVer 1 5 0) \<and>
   check_verdict (Some (SemVer 1 5 0)) (Some (SemVer 2 0 0)) = Inl Incompatible \<and>
   check (demo_world False) (Some (SemVer 1 5 0)) ([SemVer 2 0 0], [SemVer 2 0 0])
     = ([Issue SELECT_VERSION, Completed SELECT_VERSION None, Say BlankLine],
        Rejected Incompatible, ([SemVer 2 0 0], [SemVer 2 0 0])) \<and>
   semver_gt (SemVer 0 3 0) (SemVer 0 2 0) \<and> major (SemVer 0 3 0) = major (SemVer 0 2 0) \<and>
   check_verdict (Some (SemVer 0 2 0)) (Some (SemVer 0 3 0)) = Inl Incompatible"
  by code_simp

section \<open>The completion callback\<close>

text \<open>
  C5 (what the code does at an input where the run fails). When the database cannot be
  reached the promise of \<^verbatim>\<open>semigrate\<close> is rejected with the error of pg, and the
  completion callback is called with \<^verbatim>\<open>null\<close>, not with that error: \<^verbatim>\<open>fin\<close> calls its first
  argument, \<^verbatim>\<open>callback.bind(null, null)\<close>, whatever the outcome.
\<close>

theorem callback_gets_null_when_connect_fails:
  "semigrate (demo_world False) (Some (demo_config ''down'' False)) empty_db
     = ([Say (Connecting ''down''), Callback None], Rejected (PgError ''ECONNREFUSED''), empty_db)"
  by code_simp

section \<open>Units are recorded after their steps, and a failure stops the queue\<close>

text \<open>
  C6. For every unit \<open>u\<close>: the steps send no bookkeeping insert; \<^verbatim>\<open>run\<close> issues the
  insert of the unit's version after all events of the steps, and only when the promise of
  the steps is fulfilled; otherwise it issues no insert. The promise of the steps is
  fulfilled exactly when every step of the unit is answered with success, one after the
  other, each on the database the one before left (\<open>all_answered\<close>, read from the answers
  of the database, of the file system and of the scripts alone: the file of the step can
  be read and its script is answered without an error, or the function of a \<^verbatim>\<open>.js\<close> file
  gives a promise that is fulfilled); then no statement of the steps was answered with an
  error, and each file of a group has reported \<^verbatim>\<open>done\<close>. So the insert is issued exactly
  when every step has succeeded; and when \<^verbatim>\<open>run\<close> is fulfilled every step has succeeded, no
  statement of the unit was answered with an error, and the insert is the last statement
  of the unit. And for a queue in which the units \<open>earlier\<close>
  succeed and the next unit \<open>failing\<close> fails (in a step or in its insert): \<^verbatim>\<open>resume\<close> ends
  with the events of the failing unit, whatever units come \<open>later\<close>; the units started are
  those of \<open>earlier\<close> and the failing one, in order, and the versions recorded are exactly
  those of \<open>earlier\<close>. Read from the trace alone: whenever \<^verbatim>\<open>resume\<close> on a queue is not
  fulfilled, the units started are the first units of the queue, and the versions recorded
  are those of all started units but the last. The events of \<^verbatim>\<open>resume\<close> are those of the
  calls of \<^verbatim>\<open>run\<close> it makes (\<open>due_runs\<close>), unit after unit: these are calls on the first
  units of the queue, each but the last is fulfilled, and when they are fewer than the
  queue the last one is not.
\<close>

theorem insert_follows_steps_and_failure_stops_queue:
  assumes "resume w earlier d = (tr1, Fulfilled (), d1)"
    and "run w failing d1 = (tr2, r, d2)"
    and "r \<noteq> Fulfilled ()"
  shows "(\<forall>v. Issue (INSERT_VERSION v) \<notin> set (fst (steps w u d0))) \<and>
         fst (run w u d0) =
           fst (steps w u d0) @
           (if fst (snd (steps w u d0)) = Fulfilled ()
            then [Issue (INSERT_VERSION (version u)),
                  Completed (INSERT_VERSION (version u))
                    (case fst (client_query w (INSERT_VERSION (version u)) (snd (snd (steps w u d0)))) of
                       Inl err \<Rightarrow> Some err | Inr rows \<Rightarrow> None)]
            else []) \<and>
         (multiple u \<and> fst (snd (steps w u d0)) = Fulfilled ()
            \<longrightarrow> done_marks (fst (steps w u d0)) = length (files u)) \<and>
         (fst (snd (steps w u d0)) = Fulfilled ()) = all_answered w (step_files u) d0 \<and>
         (fst (snd (steps w u d0)) = Fulfilled ()
            \<longrightarrow> (\<forall>s e. Completed s (Some e) \<notin> set (fst (steps w u d0)))) \<and>
         (Issue (INSERT_VERSION (version u)) \<in> set (fst (run w u d0)))
            = all_answered w (step_files u) d0 \<and>
         (fst (snd (run w u d0)) = Fulfilled ()
            \<longrightarrow> all_answered w (step_files u) d0 \<and>
                (\<forall>s e. Completed s (Some e) \<notin> set (fst (run w u d0))) \<and>
                fst (run w u d0) =
                  fst (steps w u d0) @
                  [Issue (INSERT_VERSION (version u)),
                   Completed (INSERT_VERSION (version u)) None]) \<and>
         fst (resume w queue d) = concat (map unit_events (due_runs w queue d)) \<and>
         map fst (due_runs w queue d) = take (length (due_runs w queue d)) queue \<and>
         (\<forall>x \<in> set (due_runs w queue d). \<exists>d'.
            fst (snd x) = fst (run w (fst x) d') \<and> snd (snd x) = fst (snd (run w (fst x) d'))) \<and>
         (\<forall>x \<in> set (butlast (due_runs w queue d)). snd (snd x) = Fulfilled ()) \<and>
         (length (due_runs w queue d) < length queue
            \<longrightarrow> due_runs w queue d \<noteq> [] \<and> snd (snd (last (due_runs w queue d))) \<noteq> Fulfilled ()) \<and>
         resume w (earlier @ failing # later) d =
           (tr1 @ migration_header failing @ tr2, (case r of Thrown e \<Rightarrow> Uncaught e | _ \<Rightarrow> r), d2) \<and>
         started (tr1 @ migration_header failing @ tr2) = map version earlier @ [version failing] \<and>
         recorded (tr1 @ migration_header failing @ tr2) = map version earlier \<and>
         (fst (snd (resume w queue d)) \<noteq> Fulfilled ()
            \<longrightarrow> started (fst (resume w queue d)) \<noteq> [] \<and>
                recorded (fst (resume w queue d)) = butlast (started (fst (resume w queue d))) \<and>
                (\<exists>rest. map version queue = started (fst (resume w queue d)) @ rest))"
proof -
  have a: "\<forall>v. Issue (INSERT_VERSION v) \<notin> set (fst (steps w u d0))"
    by (simp add: steps_quiet)
  have c: "multiple u \<and> fst (snd (steps w u d0)) = Fulfilled ()
            \<longrightarrow> done_marks (fst (steps w u d0)) = length (files u)"
    by (simp add: group_done_marks)
  have "resume w (failing # later) d1 =
          (migration_header failing @ tr2, (case r of Thrown e \<Rightarrow> Uncaught e | _ \<Rightarrow> r), d2)"
    using assms(2,3) by (rule resume_failing_head)
  then have e: "resume w (earlier @ failing # later) d =
           (tr1 @ migration_header failing @ tr2, (case r of Thrown e \<Rightarrow> Uncaught e | _ \<Rightarrow> r), d2)"
    using resume_prefix [OF assms(1), of "failing # later"] by (simp add: after_def)
  have tr1: "started tr1 = map version earlier" "recorded tr1 = map version earlier"
    using resume_fulfilled [OF assms(1)] by simp_all
  have tr2: "started tr2 = []" "recorded tr2 = []"
    using run_started [of w failing d1] run_recorded [of w failing d1] assms(2,3) by simp_all
  have f: "started (tr1 @ migration_header failing @ tr2) = map version earlier @ [version failing]"
    by (simp add: started_append tr1 tr2 header_started)
  have g: "recorded (tr1 @ migration_header failing @ tr2) = map version earlier"
    by (simp add: recorded_append tr1 tr2 header_recorded)
  have h: "fst (snd (resume w queue d)) \<noteq> Fulfilled ()
            \<longrightarrow> started (fst (resume w queue d)) \<noteq> [] \<and>
                recorded (fst (resume w queue d)) = butlast (started (fst (resume w queue d))) \<and>
                (\<exists>rest. map version queue = started (fst (resume w queue d)) @ rest)"
    using resume_failed [of w queue d] resume_started_prefix [of queue w d] by blast
  have b: "fst (run w u d0) =
           fst (steps w u d0) @
           (if fst (snd (steps w u d0)) = Fulfilled ()
            then [Issue (INSERT_VERSION (version u)),
                  Completed (INSERT_VERSION (version u))
                    (case fst (client_query w (INSERT_VERSION (version u)) (snd (snd (steps w u d0)))) of
                       Inl err \<Rightarrow> Some err | Inr rows \<Rightarrow> None)]
            else [])"
    by (rule run_trace)
  have i: "(fst (snd (steps w u d0)) = Fulfilled ()) = all_answered w (step_files u) d0"
    by (rule steps_answered)
  have j: "fst (snd (steps w u d0)) = Fulfilled ()
            \<longrightarrow> (\<forall>s e. Completed s (Some e) \<notin> set (fst (steps w u d0)))"
    by (simp add: steps_no_failed_answer)
  have k: "(Issue (INSERT_VERSION (version u)) \<in> set (fst (run w u d0)))
            = all_answered w (step_files u) d0"
    unfolding b i [symmetric] using a by simp
  have k': "fst (snd (run w u d0)) = Fulfilled ()
            \<longrightarrow> all_answered w (step_files u) d0 \<and>
                (\<forall>s e. Completed s (Some e) \<notin> set (fst (run w u d0))) \<and>
                fst (run w u d0) =
                  fst (steps w u d0) @
                  [Issue (INSERT_VERSION (version u)),
                   Completed (INSERT_VERSION (version u)) None]"
  proof
    assume ok: "fst (snd (run w u d0)) = Fulfilled ()"
    have "all_answered w (step_files u) d0"
      using run_fulfilled(1) [OF ok] by (simp only: i)
    moreover have "\<forall>s e. Completed s (Some e) \<notin> set (fst (run w u d0))"
      using run_no_failed_answer [OF ok] by blast
    moreover note run_fulfilled(2) [OF ok]
    ultimately show "all_answered w (step_files u) d0 \<and>
                (\<forall>s e. Completed s (Some e) \<notin> set (fst (run w u d0))) \<and>
                fst (run w u d0) =
                  fst (steps w u d0) @
                  [Issue (INSERT_VERSION (version u)),
                   Completed (INSERT_VERSION (version u)) None]"
      by (intro conjI)
  qed
  have l: "fst (resume w queue d) = concat (map unit_events (due_runs w queue d))"
    by (rule resume_due_runs)
  have m: "map fst (due_runs w queue d) = take (length (due_runs w queue d)) queue"
    by (rule due_runs_prefix)
  have n: "\<forall>x \<in> set (due_runs w queue d). \<exists>d'.
            fst (snd x) = fst (run w (fst x) d') \<and> snd (snd x) = fst (snd (run w (fst x) d'))"
  proof
    fix x
    assume "x \<in> set (due_runs w queue d)"
    then show "\<exists>d'. fst (snd x) = fst (run w (fst x) d') \<and> snd (snd x) = fst (snd (run w (fst x) d'))"
      by (rule due_runs_are_runs)
  qed
  have p: "\<forall>x \<in> set (butlast (due_runs w queue d)). snd (snd x) = Fulfilled ()"
  proof
    fix x
    assume "x \<in> set (butlast (due_runs w queue d))"
    then show "snd (snd x) = Fulfilled ()"
      by (rule due_runs_butlast)
  qed
  have q: "length (due_runs w queue d) < length queue
            \<longrightarrow> due_runs w queue d \<noteq> [] \<and> snd (snd (last (due_runs w queue d))) \<noteq> Fulfilled ()"
  proof
    assume "length (due_runs w queue d) < length queue"
    then show "due_runs w queue d \<noteq> [] \<and> snd (snd (last (due_runs w queue d))) \<noteq> Fulfilled ()"
      by (rule due_runs_short)
  qed
  show ?thesis
    apply (intro conjI)
                  apply (rule a)
                 apply (rule b)
                apply (rule c)
               apply (rule i)
              apply (rule j)
             apply (rule k)
             apply (rule k')
            apply (rule l)
           apply (rule m)
          apply (rule n)
         apply (rule p)
        apply (rule q)
       apply (rule e)
      apply (rule f)
     apply (rule g)
    apply (rule h)
    done
qed

theorem insert_follows_steps_and_failure_stops_queue_witness:
  "resume (demo_world False) [single (SemVer 1 0 0) ''1.0.0-ok.sql''] empty_db
     = ([Say (MigrationHeader (SemVer 1 0 0) ''1.0.0-ok.sql'' True),
         Issue (SCRIPT ''1.0.0-ok.sql''), Completed (SCRIPT ''1.0.0-ok.sql'') None,
         Issue (INSERT_VERSION (SemVer 1 0 0)), Completed (INSERT_VERSION (SemVer 1 0 0)) None,
         Say DoneMark],
        Fulfilled (), ([], [SemVer 1 0 0])) \<and>
   run (demo_world False) broken_group ([], [SemVer 1 0 0])
     = ([Say (StepHeader ''0001-ok.sql''), Issue (SCRIPT ''0001-ok.sql''),
         Completed (SCRIPT ''0001-ok.sql'') None, Say DoneMark,
         Say (StepHeader ''0002-broken.sql''), Issue (SCRIPT ''FAIL''),
         Completed (SCRIPT ''FAIL'') (Some (PgError ''syntax error''))],
        Rejected (PgError ''syntax error''), ([], [SemVer 1 0 0])) \<and>
   step_files broken_group
     = [[''1.1.0-broken'', ''0001-ok.sql''], [''1.1.0-broken'', ''0002-broken.sql''],
        [''1.1.0-broken'', ''0003-never.sql'']] \<and>
   fst (step_answer (demo_world False) [''1.1.0-broken'', ''0002-broken.sql''] ([], [SemVer 1 0 0]))
     = False \<and>
   all_answered (demo_world False) (step_files broken_group) ([], [SemVer 1 0 0]) = False \<and>
   fst (snd (steps (demo_world False) broken_group ([], [SemVer 1 0 0])))
     = Rejected (PgError ''syntax error'') \<and>
   Issue (INSERT_VERSION (SemVer 1 1 0))
     \<notin> set (fst (run (demo_world False) broken_group ([], [SemVer 1 0 0]))) \<and>
   fst (snd (resume (demo_world False)
     [single (SemVer 1 0 0) ''1.0.0-ok.sql'', broken_group,
      single (SemVer 1 2 0) ''1.2.0-never.sql''] empty_db)) = Rejected (PgError ''syntax error'') \<and>
   started (fst (resume (demo_world False)
     [single (SemVer 1 0 0) ''1.0.0-ok.sql'', broken_group,
      single (SemVer 1 2 0) ''1.2.0-never.sql''] empty_db)) = [SemVer 1 0 0, SemVer 1 1 0] \<and>
   recorded (fst (resume (demo_world False)
     [single (SemVer 1 0 0) ''1.0.0-ok.sql'', broken_group,
      single (SemVer 1 2 0) ''1.2.0-never.sql''] empty_db)) = [SemVer 1 0 0] \<and>
   map fst (due_runs (demo_world False)
     [single (SemVer 1 0 0) ''1.0.0-ok.sql'', broken_group,
      single (SemVer 1 2 0) ''1.2.0-never.sql''] empty_db)
     = [single (SemVer 1 0 0) ''1.0.0-ok.sql'', broken_group] \<and>
   multiple demo_group \<and> fst (snd (steps (demo_world False) demo_group empty_db)) = Fulfilled () \<and>
   fst (snd (run (demo_world False) demo_group empty_db)) = Fulfilled () \<and>
   all_answered (demo_world False) (step_files demo_group) empty_db \<and>
   Issue (INSERT_VERSION (SemVer 0 0 1)) \<in> set (fst (run (demo_world False) demo_group empty_db)) \<and>
   done_marks (fst (steps (demo_world False) demo_group empty_db)) = 3"
proof -
  let ?w = "demo_world False"
  let ?a = "single (SemVer 1 0 0) ''1.0.0-ok.sql''"
  let ?b = "broken_group"
  let ?c = "single (SemVer 1 2 0) ''1.2.0-never.sql''"
  let ?d1 = "([], [SemVer 1 0 0]) :: demo_db"
  let ?tr1 = "[Say (MigrationHeader (SemVer 1 0 0) ''1.0.0-ok.sql'' True),
         Issue (SCRIPT ''1.0.0-ok.sql''), Completed (SCRIPT ''1.0.0-ok.sql'') None,
         Issue (INSERT_VERSION (SemVer 1 0 0)), Completed (INSERT_VERSION (SemVer 1 0 0)) None,
         Say DoneMark]"
  let ?tr2 = "[Say (StepHeader ''0001-ok.sql''), Issue (SCRIPT ''0001-ok.sql''),
         Completed (SCRIPT ''0001-ok.sql'') None, Say DoneMark,
         Say (StepHeader ''0002-broken.sql''), Issue (SCRIPT ''FAIL''),
         Completed (SCRIPT ''FAIL'') (Some (PgError ''syntax error''))]"
  have h1: "resume ?w [?a] empty_db = (?tr1, Fulfilled (), ?d1)"
    by code_simp
  have h2: "run ?w ?b ?d1 = (?tr2, Rejected (PgError ''syntax error''), ?d1)"
    by code_simp
  have h3: "Rejected (PgError ''syntax error'') \<noteq> Fulfilled ()"
    by simp
  have vb: "version ?b = SemVer 1 1 0" by (simp add: broken_group_def)
  have vg: "version demo_group = SemVer 0 0 1" by (simp add: demo_group_def)
  have sf: "step_files ?b
     = [[''1.1.0-broken'', ''0001-ok.sql''], [''1.1.0-broken'', ''0002-broken.sql''],
        [''1.1.0-broken'', ''0003-never.sql'']]"
    by (simp add: step_files_def broken_group_def)
  have sa: "fst (step_answer ?w [''1.1.0-broken'', ''0002-broken.sql''] ?d1) = False"
    by code_simp
  have sb: "fst (snd (steps ?w ?b ?d1)) = Rejected (PgError ''syntax error'')"
    by code_simp
  have g1: "multiple demo_group" by (simp add: demo_group_def)
  have g2: "fst (snd (steps ?w demo_group empty_db)) = Fulfilled ()" by code_simp
  have g3: "length (files demo_group) = 3" by (simp add: demo_group_def)
  have g4: "fst (snd (run ?w demo_group empty_db)) = Fulfilled ()" by code_simp
  note T = insert_follows_steps_and_failure_stops_queue
      [OF h1 h2 h3, of demo_group empty_db "[?a, ?b, ?c]" "[?c]"]
  note U = insert_follows_steps_and_failure_stops_queue
      [OF h1 h2 h3, of ?b ?d1 "[?a, ?b, ?c]" "[?c]"]
  have r: "resume ?w [?a, ?b, ?c] empty_db =
             (?tr1 @ migration_header ?b @ ?tr2, Rejected (PgError ''syntax error''), ?d1)"
    using T by simp
  have s: "started (?tr1 @ migration_header ?b @ ?tr2) = [SemVer 1 0 0, SemVer 1 1 0]"
    using T by (simp add: single_def vb)
  have c: "recorded (?tr1 @ migration_header ?b @ ?tr2) = [SemVer 1 0 0]"
    using T by (simp add: single_def)
  have m: "done_marks (fst (steps ?w demo_group empty_db)) = 3"
    using T g1 g2 g3 by simp
  have ga: "all_answered ?w (step_files demo_group) empty_db"
    using T g2 by simp
  have gi: "Issue (INSERT_VERSION (SemVer 0 0 1)) \<in> set (fst (run ?w demo_group empty_db))"
    using T ga by (simp only: vg) simp
  have ba: "all_answered ?w (step_files ?b) ?d1 = False"
    using U sb by simp
  have bi: "Issue (INSERT_VERSION (SemVer 1 1 0)) \<notin> set (fst (run ?w ?b ?d1))"
    using U ba by (simp only: vb) simp
  have len: "length (due_runs ?w [?a, ?b, ?c] empty_db) = 2"
    by code_simp
  have tk: "take 2 [?a, ?b, ?c] = [?a, ?b]"
    by (simp add: numeral_2_eq_2)
  have "map fst (due_runs ?w [?a, ?b, ?c] empty_db)
          = take (length (due_runs ?w [?a, ?b, ?c] empty_db)) [?a, ?b, ?c]"
    using T by - (elim conjE, assumption)
  then have dr: "map fst (due_runs ?w [?a, ?b, ?c] empty_db) = [?a, ?b]"
    by (simp only: len tk)
  show ?thesis
    apply (intro conjI)
                   apply (rule h1)
                  apply (rule h2)
                 apply (rule sf)
                apply (rule sa)
               apply (rule ba)
              apply (rule sb)
             apply (rule bi)
            apply (simp only: r fst_conv snd_conv)
           apply (simp only: r fst_conv s)
          apply (simp only: r fst_conv c)
         apply (rule dr)
        apply (rule g1)
       apply (rule g2)
       apply (rule g4)
      apply (rule ga)
     apply (rule gi)
    apply (rule m)
    done
qed
section \<open>The units that are run\<close>

text \<open>
  C7 (as the code has it). For every directory that \<^verbatim>\<open>list\<close> can read, with \<open>catalog\<close> the
  units it returns, and every detected version (\<open>None\<close> when the table is empty): the
  filter of \<^verbatim>\<open>migrate\<close> computes the pending set of the specification, the units whose
  version is greater than the detected one, or all units when none is detected, in the
  order of the catalog, which is ascending by version; \<^verbatim>\<open>migrate\<close> is \<^verbatim>\<open>resume\<close> on exactly
  that list. The units that are run are the first of the pending ones, in that order: the
  events of \<^verbatim>\<open>resume\<close> are those of the calls of \<^verbatim>\<open>run\<close> it makes (\<open>due_runs\<close>), unit after
  unit, each call on the next pending unit; every call but the last is fulfilled; when
  there are pending units there is a call; when the calls are fewer than the pending units
  then the last call is not fulfilled. So the units run are the pending units up to and
  including the first one that fails, and all pending units when none fails, which is the
  case exactly when \<^verbatim>\<open>migrate\<close> is fulfilled; the headers printed are those of the units
  that are run.
\<close>

theorem migrating_runs_pending_in_catalog_order:
  assumes "list w directory = Inr catalog"
    and "detect w False d = (tr0, Fulfilled detected, d0)"
  shows "filter_throwing (is_pending (case detected of None \<Rightarrow> Null | Some v \<Rightarrow> Str v)) catalog
           = Inr (spec_pending detected catalog) \<and>
         migrate w catalog d =
           after (tr0 @ (if spec_pending detected catalog \<noteq> [] then [Say MigratingDatabase] else []))
             (resume w (spec_pending detected catalog) d0) \<and>
         sorted_wrt (\<lambda>a b. semver_compare (version a) (version b) \<le> 0)
           (spec_pending detected catalog) \<and>
         fst (resume w (spec_pending detected catalog) d0)
           = concat (map unit_events (due_runs w (spec_pending detected catalog) d0)) \<and>
         map fst (due_runs w (spec_pending detected catalog) d0)
           = take (length (due_runs w (spec_pending detected catalog) d0))
               (spec_pending detected catalog) \<and>
         (\<forall>x \<in> set (due_runs w (spec_pending detected catalog) d0). \<exists>d'.
            fst (snd x) = fst (run w (fst x) d') \<and> snd (snd x) = fst (snd (run w (fst x) d'))) \<and>
         (\<forall>x \<in> set (butlast (due_runs w (spec_pending detected catalog) d0)).
            snd (snd x) = Fulfilled ()) \<and>
         (spec_pending detected catalog \<noteq> []
            \<longrightarrow> due_runs w (spec_pending detected catalog) d0 \<noteq> []) \<and>
         (length (due_runs w (spec_pending detected catalog) d0)
            < length (spec_pending detected catalog)
            \<longrightarrow> snd (snd (last (due_runs w (spec_pending detected catalog) d0))) \<noteq> Fulfilled ()) \<and>
         (fst (snd (migrate w catalog d)) = Fulfilled ())
           = (length (due_runs w (spec_pending detected catalog) d0)
                = length (spec_pending detected catalog) \<and>
              list_all (\<lambda>x. snd (snd x) = Fulfilled ())
                (due_runs w (spec_pending detected catalog) d0)) \<and>
         started (fst (migrate w catalog d))
           = map (\<lambda>x. version (fst x)) (due_runs w (spec_pending detected catalog) d0) \<and>
         (\<exists>rest. map version (spec_pending detected catalog)
                   = started (fst (migrate w catalog d)) @ rest) \<and>
         (fst (snd (migrate w catalog d)) = Fulfilled ()
            \<longrightarrow> started (fst (migrate w catalog d)) = map version (spec_pending detected catalog))"
proof -
  let ?pending = "spec_pending detected catalog"
  let ?say = "if ?pending \<noteq> [] then [Say MigratingDatabase] else []"
  let ?due = "due_runs w ?pending d0"
  have 1: "filter_throwing (is_pending (case detected of None \<Rightarrow> Null | Some v \<Rightarrow> Str v)) catalog
           = Inr ?pending"
    by (rule filter_throwing_pending)
  have nt: "fst (snd (after ?say (resume w ?pending d0))) \<noteq> Thrown e" for e
    by (simp add: end_after resume_not_Thrown)
  have 2: "migrate w catalog d = after (tr0 @ ?say) (resume w ?pending d0)"
    unfolding migrate_def versionPromise_detected [OF assms(2)]
    by (subst then_run_not_Thrown) (simp_all add: 1 nt, cases "resume w ?pending d0", simp add: after_def)
  have st0: "started tr0 = []" using detect_started [of w False d] assms(2) by simp
  have st: "started (fst (migrate w catalog d)) = started (fst (resume w ?pending d0))"
    by (simp add: 2 fst_after started_append st0)
  have en: "fst (snd (migrate w catalog d)) = fst (snd (resume w ?pending d0))"
    by (simp add: 2 end_after)
  have 3: "sorted_wrt (\<lambda>a b. semver_compare (version a) (version b) \<le> 0) ?pending"
    using list_sorted [OF assms(1)] by (simp add: spec_pending_def sorted_wrt_filter)
  have 4: "fst (resume w ?pending d0) = concat (map unit_events ?due)"
    by (rule resume_due_runs)
  have 5: "map fst ?due = take (length ?due) ?pending"
    by (rule due_runs_prefix)
  have 6: "\<forall>x \<in> set ?due. \<exists>d'.
            fst (snd x) = fst (run w (fst x) d') \<and> snd (snd x) = fst (snd (run w (fst x) d'))"
  proof
    fix x
    assume "x \<in> set ?due"
    then show "\<exists>d'. fst (snd x) = fst (run w (fst x) d') \<and> snd (snd x) = fst (snd (run w (fst x) d'))"
      by (rule due_runs_are_runs)
  qed
  have 7: "\<forall>x \<in> set (butlast ?due). snd (snd x) = Fulfilled ()"
  proof
    fix x
    assume "x \<in> set (butlast ?due)"
    then show "snd (snd x) = Fulfilled ()"
      by (rule due_runs_butlast)
  qed
  have 8: "?pending \<noteq> [] \<longrightarrow> ?due \<noteq> []"
  proof
    assume "?pending \<noteq> []"
    then show "?due \<noteq> []"
      by (rule due_runs_nonempty)
  qed
  have 9: "length ?due < length ?pending \<longrightarrow> snd (snd (last ?due)) \<noteq> Fulfilled ()"
  proof
    assume "length ?due < length ?pending"
    then have "?due \<noteq> [] \<and> snd (snd (last ?due)) \<noteq> Fulfilled ()"
      by (rule due_runs_short)
    then show "snd (snd (last ?due)) \<noteq> Fulfilled ()"
      by (rule conjunct2)
  qed
  have 10: "(fst (snd (migrate w catalog d)) = Fulfilled ())
              = (length ?due = length ?pending \<and> list_all (\<lambda>x. snd (snd x) = Fulfilled ()) ?due)"
    unfolding en by (rule resume_fulfilled_due)
  have 11: "started (fst (migrate w catalog d)) = map (\<lambda>x. version (fst x)) ?due"
    unfolding st by (rule resume_started_due)
  have 12: "\<exists>rest. map version ?pending = started (fst (migrate w catalog d)) @ rest"
    unfolding st by (rule resume_started_prefix)
  have 13: "fst (snd (migrate w catalog d)) = Fulfilled ()
            \<longrightarrow> started (fst (migrate w catalog d)) = map version ?pending"
    unfolding st en by (simp add: resume_fulfilled_started)
  show ?thesis
    apply (intro conjI)
                apply (rule 1)
               apply (rule 2)
              apply (rule 3)
             apply (rule 4)
            apply (rule 5)
           apply (rule 6)
          apply (rule 7)
         apply (rule 8)
        apply (rule 9)
       apply (rule 10)
      apply (rule 11)
     apply (rule 12)
    apply (rule 13)
    done
qed

theorem migrating_runs_pending_in_catalog_order_witness:
  "map path (projr (list (demo_world False) [''migrations'']))
     = [[''migrations'', ''0.0.1-initial-schema''], [''migrations'', ''0.0.2-add-views.sql''],
        [''migrations'', ''1.0.0-production.sql'']] \<and>
   detect (demo_world False) False ([SemVer 0 0 1], [SemVer 0 0 1])
     = ([Issue SELECT_VERSION, Completed SELECT_VERSION None, Say (CurrentVersion (SemVer 0 0 1))],
        Fulfilled (Some (SemVer 0 0 1)), ([SemVer 0 0 1], [SemVer 0 0 1])) \<and>
   map path (spec_pending (Some (SemVer 0 0 1)) (projr (list (demo_world False) [''migrations''])))
     = [[''migrations'', ''0.0.2-add-views.sql''], [''migrations'', ''1.0.0-production.sql'']] \<and>
   fst (snd (migrate (demo_world False) (projr (list (demo_world False) [''migrations'']))
     ([SemVer 0 0 1], [SemVer 0 0 1]))) = Fulfilled () \<and>
   started (fst (migrate (demo_world False) (projr (list (demo_world False) [''migrations'']))
     ([SemVer 0 0 1], [SemVer 0 0 1]))) = [SemVer 0 0 2, SemVer 1 0 0] \<and>
   map (\<lambda>x. path (fst x))
     (due_runs (demo_world False)
        (spec_pending (Some (SemVer 0 0 1)) (projr (list (demo_world False) [''migrations''])))
        ([SemVer 0 0 1], [SemVer 0 0 1]))
     = [[''migrations'', ''0.0.2-add-views.sql''], [''migrations'', ''1.0.0-production.sql'']] \<and>
   map (\<lambda>x. snd (snd x))
     (due_runs (demo_world False)
        (spec_pending (Some (SemVer 0 0 1)) (projr (list (demo_world False) [''migrations''])))
        ([SemVer 0 0 1], [SemVer 0 0 1]))
     = [Fulfilled (), Fulfilled ()]"
proof -
  let ?w = "demo_world False"
  let ?catalog = "projr (list ?w [''migrations''])"
  let ?d = "([SemVer 0 0 1], [SemVer 0 0 1]) :: demo_db"
  let ?pending = "spec_pending (Some (SemVer 0 0 1)) ?catalog"
  have h1: "list ?w [''migrations''] = Inr ?catalog"
    by code_simp
  have h2: "detect ?w False ?d
     = ([Issue SELECT_VERSION, Completed SELECT_VERSION None, Say (CurrentVersion (SemVer 0 0 1))],
        Fulfilled (Some (SemVer 0 0 1)), ?d)"
    by code_simp
  have c: "map path ?catalog
     = [[''migrations'', ''0.0.1-initial-schema''], [''migrations'', ''0.0.2-add-views.sql''],
        [''migrations'', ''1.0.0-production.sql'']]"
    by code_simp
  have p: "map path ?pending
     = [[''migrations'', ''0.0.2-add-views.sql''], [''migrations'', ''1.0.0-production.sql'']]"
    by code_simp
  have v: "map version ?pending = [SemVer 0 0 2, SemVer 1 0 0]"
    by code_simp
  have l: "length ?pending = 2"
    by code_simp
  have f: "fst (snd (migrate ?w ?catalog ?d)) = Fulfilled ()"
    by code_simp
  note T = migrating_runs_pending_in_catalog_order [OF h1 h2]
  have "fst (snd (migrate ?w ?catalog ?d)) = Fulfilled ()
          \<longrightarrow> started (fst (migrate ?w ?catalog ?d)) = map version ?pending"
    using T by - (elim conjE, assumption)
  then have s: "started (fst (migrate ?w ?catalog ?d)) = [SemVer 0 0 2, SemVer 1 0 0]"
    using f by (simp only: v)
  define due where "due = due_runs ?w ?pending ?d"
  have "(fst (snd (migrate ?w ?catalog ?d)) = Fulfilled ())
          = (length (due_runs ?w ?pending ?d) = length ?pending \<and>
             list_all (\<lambda>x. snd (snd x) = Fulfilled ()) (due_runs ?w ?pending ?d))"
    using T by - (elim conjE, assumption)
  then have both: "length due = length ?pending \<and> list_all (\<lambda>x. snd (snd x) = Fulfilled ()) due"
    unfolding due_def using f by (rule iffD1)
  have len: "length due = 2"
    using both [THEN conjunct1] by (simp only: l)
  have all: "\<forall>x \<in> set due. snd (snd x) = Fulfilled ()"
    using both [THEN conjunct2] by (simp only: list_all_iff)
  have "map fst (due_runs ?w ?pending ?d) = take (length (due_runs ?w ?pending ?d)) ?pending"
    using T by - (elim conjE, assumption)
  then have "map fst due = take (length due) ?pending"
    by (simp only: due_def)
  then have "map fst due = ?pending"
    using l by (simp only: len) simp
  then have "map path (map fst due) = map path ?pending"
    by (rule arg_cong)
  then have "map (\<lambda>x. path (fst x)) due
     = [[''migrations'', ''0.0.2-add-views.sql''], [''migrations'', ''1.0.0-production.sql'']]"
    by (simp only: p map_map comp_def)
  then have dp: "map (\<lambda>x. path (fst x)) (due_runs ?w ?pending ?d)
     = [[''migrations'', ''0.0.2-add-views.sql''], [''migrations'', ''1.0.0-production.sql'']]"
    by (simp only: due_def)
  have "map (\<lambda>x. snd (snd x)) due = replicate (length due) (Fulfilled ())"
    using all by (simp add: map_replicate_const [symmetric] cong: map_cong)
  then have "map (\<lambda>x. snd (snd x)) due = [Fulfilled (), Fulfilled ()]"
    unfolding len by (simp add: numeral_2_eq_2)
  then have dr: "map (\<lambda>x. snd (snd x)) (due_runs ?w ?pending ?d) = [Fulfilled (), Fulfilled ()]"
    by (simp only: due_def)
  show ?thesis
    apply (intro conjI)
          apply (rule c)
         apply (rule h2)
        apply (rule p)
       apply (rule f)
      apply (rule s)
     apply (rule dp)
    apply (rule dr)
    done
qed

text \<open>
  C7 (as the claim states it) fails: the directory \<^verbatim>\<open>failing\<close> holds the units 1.0.0, 1.1.0
  and 1.2.0, and no version is recorded, so all three are pending; the script of 1.1.0 is
  answered with an error, and \<^verbatim>\<open>migrate\<close> runs 1.0.0 and 1.1.0 only: the script of 1.2.0 is
  never sent.
\<close>

theorem failing_unit_leaves_pending_unit_unexecuted:
  "map version (projr (list (demo_world False) [''failing'']))
     = [SemVer 1 0 0, SemVer 1 1 0, SemVer 1 2 0] \<and>
   detect (demo_world False) False empty_db
     = ([Issue SELECT_VERSION, Completed SELECT_VERSION None], Fulfilled None, empty_db) \<and>
   map version (spec_pending None (projr (list (demo_world False) [''failing''])))
     = [SemVer 1 0 0, SemVer 1 1 0, SemVer 1 2 0] \<and>
   migrate (demo_world False) (projr (list (demo_world False) [''failing''])) empty_db
     = ([Issue SELECT_VERSION, Completed SELECT_VERSION None,
         Say MigratingDatabase,
         Say (MigrationHeader (SemVer 1 0 0) ''ok.sql'' True),
         Issue (SCRIPT ''1.0.0-ok.sql''), Completed (SCRIPT ''1.0.0-ok.sql'') None,
         Issue (INSERT_VERSION (SemVer 1 0 0)), Completed (INSERT_VERSION (SemVer 1 0 0)) None,
         Say DoneMark,
         Say (MigrationHeader (SemVer 1 1 0) ''broken.sql'' True),
         Issue (SCRIPT ''FAIL''), Completed (SCRIPT ''FAIL'') (Some (PgError ''syntax error''))],
        Rejected (PgError ''syntax error''), ([], [SemVer 1 0 0])) \<and>
   readFileSync (demo_world False) [''failing'', ''1.2.0-never.sql''] = Inr ''1.2.0-never.sql'' \<and>
   Issue (SCRIPT ''1.2.0-never.sql'')
     \<notin> set (fst (migrate (demo_world False) (projr (list (demo_world False) [''failing''])) empty_db)) \<and>
   map path (map fst (due_runs (demo_world False)
       (spec_pending None (projr (list (demo_world False) [''failing'']))) empty_db))
     = [[''failing'', ''1.0.0-ok.sql''], [''failing'', ''1.1.0-broken.sql'']]"
  by code_simp
section \<open>The catalog is in ascending order and holds the migrations of the directory\<close>

text \<open>
  C8 (as the code has it). For every directory that \<^verbatim>\<open>list\<close> can read, the units it
  returns are in ascending order of their versions, where two units may have the same
  version. The units are the entries of the directory that are migrations, one unit for
  each: the name is a valid version, a hyphen and the title, and the entry is a directory
  or a file of type \<^verbatim>\<open>.sql\<close> or \<^verbatim>\<open>.js\<close>. Every other entry is the path of no unit; among
  them every entry whose name has no hyphen (or a line break in the title), or whose part
  before the first hyphen is no valid version.
\<close>

theorem list_ascending_and_skips_invalid:
  assumes "readdirSync w (if directory = [] then [''.''] else directory) = Inr names"
    and "list w directory = Inr ms"
  shows "sorted_wrt (\<lambda>a b. semver_compare (version a) (version b) \<le> 0) ms \<and>
         (\<forall>m \<in> set ms. \<exists>name \<in> set names. \<exists>v.
            path m = directory @ [name] \<and> matchSpec name = Some (v, title m) \<and>
            semver_valid w v = Some (version m)) \<and>
         (\<forall>name. matchSpec name = None \<or> (\<exists>v t. matchSpec name = Some (v, t) \<and> semver_valid w v = None)
            \<longrightarrow> (\<forall>m \<in> set ms. path m \<noteq> directory @ [name])) \<and>
         path ` set ms
           = set (filter (is_migration_entry w) (map (\<lambda>name. directory @ [name]) names)) \<and>
         length ms
           = length (filter (is_migration_entry w) (map (\<lambda>name. directory @ [name]) names))"
proof -
  let ?cmp = "\<lambda>m1 m2. semver_compare (version m1) (version m2)"
  obtain specs where specs: "mapSpecs w (map (\<lambda>name. directory @ [name]) names) = Inr specs"
    and ms: "ms = sort_by ?cmp (compact specs)"
    using assms by (auto simp: list_def split: sum.splits)
  have sorted: "sorted_wrt (\<lambda>a b. ?cmp a b \<le> 0) ms"
    unfolding ms
    by (rule sorted_sort_by) (use semver_compare_trans semver_compare_total in blast)+
  have from_entry: "\<exists>name \<in> set names. \<exists>v.
            path m = directory @ [name] \<and> matchSpec name = Some (v, title m) \<and>
            semver_valid w v = Some (version m)" if "m \<in> set ms" for m
  proof -
    have "Some m \<in> set specs" using that by (simp add: ms set_sort_by set_compact)
    then obtain spec where "spec \<in> set (map (\<lambda>name. directory @ [name]) names)"
      and parsed: "parseMigrationSpec w spec = Inr (Some m)"
      using mapSpecs_elements [OF specs] by blast
    then obtain name where name: "name \<in> set names" "spec = directory @ [name]" by auto
    show ?thesis
      using parseMigrationSpec_Some [OF parsed] name by (auto simp: basename_join)
  qed
  have absent: "path m \<noteq> directory @ [name]"
    if bad: "matchSpec name = None \<or> (\<exists>v t. matchSpec name = Some (v, t) \<and> semver_valid w v = None)"
      and mem: "m \<in> set ms" for name m
  proof
    assume "path m = directory @ [name]"
    moreover obtain name' v where "path m = directory @ [name']"
      "matchSpec name' = Some (v, title m)" "semver_valid w v = Some (version m)"
      using from_entry [OF mem] by blast
    ultimately show False using bad by auto
  qed
  show ?thesis
    using sorted from_entry absent list_entries [OF assms] by blast
qed

theorem list_ascending_and_skips_invalid_witness:
  "readdirSync (demo_world False) [''migrations'']
     = Inr [''0.0.1-initial-schema'', ''0.0.2-add-views.sql'', ''1.0.0-production.sql'', ''README.md''] \<and>
   map version (projr (list (demo_world False) [''migrations'']))
     = [SemVer 0 0 1, SemVer 0 0 2, SemVer 1 0 0] \<and>
   sorted_wrt (\<lambda>a b. semver_compare (version a) (version b) \<le> 0)
     (projr (list (demo_world False) [''migrations''])) \<and>
   matchSpec ''README.md'' = None \<and>
   [''migrations'', ''README.md''] \<notin> path ` set (projr (list (demo_world False) [''migrations''])) \<and>
   filter (is_migration_entry (demo_world False))
     [[''migrations'', ''0.0.1-initial-schema''], [''migrations'', ''0.0.2-add-views.sql''],
      [''migrations'', ''1.0.0-production.sql''], [''migrations'', ''README.md'']]
     = [[''migrations'', ''0.0.1-initial-schema''], [''migrations'', ''0.0.2-add-views.sql''],
        [''migrations'', ''1.0.0-production.sql'']] \<and>
   path ` set (projr (list (demo_world False) [''migrations'']))
     = {[''migrations'', ''0.0.1-initial-schema''], [''migrations'', ''0.0.2-add-views.sql''],
        [''migrations'', ''1.0.0-production.sql'']} \<and>
   length (projr (list (demo_world False) [''migrations''])) = 3 \<and>
   readdirSync (demo_world False) [''mixed''] = Inr [''1.0.0-a.sql'', ''1.0.0-b.txt''] \<and>
   matchSpec ''1.0.0-b.txt'' = Some (''1.0.0'', ''b.txt'') \<and>
   semver_valid (demo_world False) ''1.0.0'' = Some (SemVer 1 0 0) \<and>
   is_migration_entry (demo_world False) [''mixed'', ''1.0.0-b.txt''] = False \<and>
   path ` set (projr (list (demo_world False) [''mixed''])) = {[''mixed'', ''1.0.0-a.sql'']} \<and>
   length (projr (list (demo_world False) [''mixed''])) = 1"
proof -
  let ?w = "demo_world False"
  let ?ms = "projr (list ?w [''migrations''])"
  have h1: "readdirSync ?w (if [''migrations''] = [] then [''.''] else [''migrations''])
     = Inr [''0.0.1-initial-schema'', ''0.0.2-add-views.sql'', ''1.0.0-production.sql'', ''README.md'']"
    by code_simp
  have h2: "list ?w [''migrations''] = Inr ?ms"
    by code_simp
  have v: "map version ?ms = [SemVer 0 0 1, SemVer 0 0 2, SemVer 1 0 0]"
    by code_simp
  have n: "matchSpec ''README.md'' = None"
    by code_simp
  note T = list_ascending_and_skips_invalid [OF h1 h2]
  have s: "sorted_wrt (\<lambda>a b. semver_compare (version a) (version b) \<le> 0) ?ms"
    using T by blast
  have "\<forall>m \<in> set ?ms. path m \<noteq> [''migrations''] @ [''README.md'']"
    using T n by blast
  then have a: "[''migrations'', ''README.md''] \<notin> path ` set ?ms"
    by auto
  have f: "filter (is_migration_entry ?w)
     (map (\<lambda>name. [''migrations''] @ [name])
        [''0.0.1-initial-schema'', ''0.0.2-add-views.sql'', ''1.0.0-production.sql'', ''README.md''])
     = [[''migrations'', ''0.0.1-initial-schema''], [''migrations'', ''0.0.2-add-views.sql''],
        [''migrations'', ''1.0.0-production.sql'']]"
    by code_simp
  have p: "path ` set ?ms
     = {[''migrations'', ''0.0.1-initial-schema''], [''migrations'', ''0.0.2-add-views.sql''],
        [''migrations'', ''1.0.0-production.sql'']}"
    using T by (simp only: f) simp
  have l: "length ?ms = 3"
    using T by (simp only: f) simp
  have f': "filter (is_migration_entry ?w)
     [[''migrations'', ''0.0.1-initial-schema''], [''migrations'', ''0.0.2-add-views.sql''],
      [''migrations'', ''1.0.0-production.sql''], [''migrations'', ''README.md'']]
     = [[''migrations'', ''0.0.1-initial-schema''], [''migrations'', ''0.0.2-add-views.sql''],
        [''migrations'', ''1.0.0-production.sql'']]"
    using f by simp
  let ?mx = "projr (list ?w [''mixed''])"
  have m1: "readdirSync ?w (if [''mixed''] = [] then [''.''] else [''mixed''])
     = Inr [''1.0.0-a.sql'', ''1.0.0-b.txt'']"
    by code_simp
  have m2: "list ?w [''mixed''] = Inr ?mx"
    by code_simp
  have m3: "matchSpec ''1.0.0-b.txt'' = Some (''1.0.0'', ''b.txt'')"
    by code_simp
  have m4: "semver_valid ?w ''1.0.0'' = Some (SemVer 1 0 0)"
    by code_simp
  have m5: "is_migration_entry ?w [''mixed'', ''1.0.0-b.txt''] = False"
    by code_simp
  have m6: "filter (is_migration_entry ?w)
     (map (\<lambda>name. [''mixed''] @ [name]) [''1.0.0-a.sql'', ''1.0.0-b.txt''])
     = [[''mixed'', ''1.0.0-a.sql'']]"
    by code_simp
  note M = list_ascending_and_skips_invalid [OF m1 m2]
  have m7: "path ` set ?mx = {[''mixed'', ''1.0.0-a.sql'']}"
    using M by (simp only: m6) simp
  have m8: "length ?mx = 1"
    using M by (simp only: m6) simp
  show ?thesis
    apply (intro conjI)
                apply (use h1 in simp)
               apply (rule v)
              apply (rule s)
             apply (rule n)
            apply (rule a)
           apply (rule f')
          apply (rule p)
         apply (rule l)
        apply (use m1 in simp)
       apply (rule m3)
      apply (rule m4)
     apply (rule m5)
    apply (rule m7)
   apply (rule m8)
    done
qed

text \<open>
  C8 (as the claim states it) fails: a directory with the entries \<^verbatim>\<open>1.0.0-a.sql\<close> and
  \<^verbatim>\<open>1.0.0-b.sql\<close> gives two units of version 1.0.0, one after the other, and the second
  is not greater than the first.
\<close>

theorem same_version_twice_in_catalog:
  "list (demo_world False) [''twice'']
     = Inr [\<lparr>version = SemVer 1 0 0, title = ''a.sql'', multiple = False,
             path = [''twice'', ''1.0.0-a.sql''], files = [[''twice'', ''1.0.0-a.sql'']]\<rparr>,
            \<lparr>version = SemVer 1 0 0, title = ''b.sql'', multiple = False,
             path = [''twice'', ''1.0.0-b.sql''], files = [[''twice'', ''1.0.0-b.sql'']]\<rparr>] \<and>
   semver_compare (SemVer 1 0 0) (SemVer 1 0 0) = 0 \<and>
   \<not> semver_gt (SemVer 1 0 0) (SemVer 1 0 0)"
  by code_simp

section \<open>One statement at a time\<close>

text \<open>
  C9 (as the code has it). In every run, a statement is issued while another is in flight
  only in two places: \<^verbatim>\<open>CREATE TABLE\<close> while \<^verbatim>\<open>CREATE SCHEMA\<close> is in flight
  (\<^verbatim>\<open>initialize\<close>), and \<^verbatim>\<open>BEGIN\<close> while \<^verbatim>\<open>ROLLBACK\<close> is in flight (the recovery of
  \<^verbatim>\<open>migrate\<close>). Both pairs are handed to the client at once through \<^verbatim>\<open>Q.all\<close>; every
  other statement is issued after the one before it has completed.
\<close>

theorem only_Q_all_pairs_overlap:
  "set (overlaps [] (fst (semigrate w config d)))
     \<subseteq> {(CREATE_SCHEMA, CREATE_TABLE), (ROLLBACK, BEGIN)}"
proof (cases config)
  case None
  then show ?thesis by (simp add: semigrate_None)
next
  case (Some c)
  have "calm (fst (semigrate w (Some c) d))"
    by (rule P_semigrate [OF trace_property_calm]) (simp_all add: calm_def)
  then show ?thesis
    by (auto simp: Some calm_def list_all_iff allowed_overlap_def)
qed

text \<open>
  C9 (as the claim states it) fails: in the successful run on the directory of the README,
  \<^verbatim>\<open>CREATE TABLE\<close> is issued while \<^verbatim>\<open>CREATE SCHEMA\<close> has not completed.
\<close>

theorem initialize_issues_two_statements_at_once:
  "overlaps [] (fst (semigrate (demo_world False) (Some (demo_config ''db'' False)) empty_db))
     = [(CREATE_SCHEMA, CREATE_TABLE)]"
  by code_simp

section \<open>A call without configuration\<close>

text \<open>
  C10. \<^verbatim>\<open>semigrate\<close> called without a configuration throws a TypeError at line 362, where
  \<^verbatim>\<open>config.colors\<close> is read before line 364 would put the empty configuration in its
  place: nothing has happened by then (no connection, no statement, no callback), and the
  database is as it was.
\<close>

theorem semigrate_without_config_throws:
  "semigrate w None d = ([], Thrown TypeError, d)"
  by (simp add: semigrate_def)

end
